theory Spec2Isabelle
  imports Main "HOL-Library.AList" "HOL-Library.Char_ord" "HOL-Library.List_Lexorder" "HOL-Library.Multiset"
begin

section \<open>Packages and the packages store (packagesstore.py)\<close>

text \<open>
  Package objects are mutable and shared by reference: the store hands out the objects it
  holds, and \<open>get_package_deps\<close> extends the \<open>deps\<close> list of the very object it was asked
  about. Objects therefore live in a heap, and the store's dictionary \<open>self._packages\<close>
  maps a name to the address of an object.
\<close>

type_synonym addr = nat

record info =
  name :: string
  version :: string
  shortdesc :: string
  longdesc :: string
  title :: string
  vendor :: string
  uuid :: "string option"

text \<open>
  Modelled from the spec: the classes of \<open>cerbero.packages.package\<close> are not among the
  sources. Following the data model, a Package carries an ordered list of dependency names
  and enumerates its files (\<open>get_files_list()\<close>); a MetaPackage carries no \<open>deps\<close> and no
  files of its own, but a list of (name, required, selected) triples and the installation
  directory per target platform. MetaPackage is not a subclass of Package.
\<close>

datatype obj =
  Package info "string list" "string list"
  | MetaPackage info "(string \<times> bool \<times> bool) list" "(string \<times> string) list"

fun info_of :: "obj \<Rightarrow> info" where
  "info_of (Package i ds fs) = i"
| "info_of (MetaPackage i ps d) = i"

definition obj_name :: "obj \<Rightarrow> string" where
  "obj_name p = name (info_of p)"

fun is_MetaPackage :: "obj \<Rightarrow> bool" where
  "is_MetaPackage (Package i ds fs) = False"
| "is_MetaPackage (MetaPackage i ps d) = True"

text \<open>The argument \<open>pkg\<close> of \<open>get_package_deps\<close>: a name, or a package instance.\<close>

datatype pkg_arg = Name string | Instance addr

datatype error =
  FatalError string
  | PackageNotFoundError pkg_arg
  | AttributeError string
  | KeyError string
  | TypeError string
  | OSError string

record store =
  heap :: "addr \<Rightarrow> obj"
  s_packages :: "(string \<times> addr) list"
  fresh :: addr

text \<open>
  \<open>get_package\<close>: the dictionary is indexed by names, so an instance used as a key is
  never found.
\<close>

fun get_package :: "store \<Rightarrow> pkg_arg \<Rightarrow> error + addr" where
  "get_package s (Name n) =
     (case map_of (s_packages s) n of
        None \<Rightarrow> Inl (PackageNotFoundError (Name n))
      | Some a \<Rightarrow> Inr a)"
| "get_package s (Instance a) = Inl (PackageNotFoundError (Instance a))"

text \<open>\<open>add_package\<close>: \<open>self._packages[package.name] = package\<close>.\<close>

definition add_package :: "store \<Rightarrow> addr \<Rightarrow> store" where
  "add_package s a = s\<lparr>s_packages := AList.update (obj_name (heap s a)) a (s_packages s)\<rparr>"

subsection \<open>The walk of \<open>_list_metapackage_deps\<close>\<close>

text \<open>
  The nested function \<open>get_package_deps(package_name, visited, depslist)\<close> appends to the
  two lists it is given; the model passes them along and returns them. Reading \<open>p.deps\<close>
  of a MetaPackage is an AttributeError.
\<close>

function mp_get_package_deps ::
    "store \<Rightarrow> string \<Rightarrow> string list \<times> addr list \<Rightarrow> error + (string list \<times> addr list)"
  and mp_for_deps ::
    "store \<Rightarrow> string list \<Rightarrow> string list \<times> addr list \<Rightarrow> error + (string list \<times> addr list)"
where
  "mp_get_package_deps s package_name (visited, depslist) =
     (if package_name \<in> set visited then Inr (visited, depslist)
      else case get_package s (Name package_name) of
        Inl e \<Rightarrow> Inl e
      | Inr a \<Rightarrow>
          (case heap s a of
             Package i ds fs \<Rightarrow> mp_for_deps s ds (visited @ [package_name], depslist @ [a])
           | MetaPackage i ps d \<Rightarrow> Inl (AttributeError ''deps'')))"
| "mp_for_deps s [] st = Inr st"
| "mp_for_deps s (p_name # rest) st =
     (case mp_get_package_deps s p_name st of
        Inl e \<Rightarrow> Inl e
      | Inr st' \<Rightarrow> mp_for_deps s rest st')"
  by pat_completeness auto

lemma mp_visited_grows_aux:
  "mp_get_package_deps_mp_for_deps_dom (Inl (s, n, st)) \<Longrightarrow>
     mp_get_package_deps s n st = Inr st' \<Longrightarrow> set (fst st) \<subseteq> set (fst st')"
  "mp_get_package_deps_mp_for_deps_dom (Inr (s, ns, st)) \<Longrightarrow>
     mp_for_deps s ns st = Inr st' \<Longrightarrow> set (fst st) \<subseteq> set (fst st')"
proof (induction s n st and s ns st arbitrary: st' and st'
    rule: mp_get_package_deps_mp_for_deps.pinduct)
  case (1 s package_name visited depslist)
  then show ?case
    by (auto simp: mp_get_package_deps.psimps split: if_splits sum.splits obj.splits)
next
  case (2 s st)
  then show ?case by (simp add: mp_for_deps.psimps)
next
  case (3 s p_name rest st)
  from "3.prems" "3.hyps" obtain st1 where
    a: "mp_get_package_deps s p_name st = Inr st1" and b: "mp_for_deps s rest st1 = Inr st'"
    by (auto simp: mp_for_deps.psimps split: sum.splits)
  from "3.IH"(1)[OF a] "3.IH"(2)[OF a b] show ?case by blast
qed

termination mp_get_package_deps
proof (relation "measures
    [\<lambda>x. case x of
        Inl (s, n, st) \<Rightarrow> card (fst ` set (s_packages s) - set (fst st))
      | Inr (s, ns, st) \<Rightarrow> card (fst ` set (s_packages s) - set (fst st)),
     \<lambda>x. case x of Inl (s, n, st) \<Rightarrow> 0 | Inr (s, ns, st) \<Rightarrow> Suc (length ns)]",
    goal_cases)
  case 1
  show ?case by simp
next
  case (2 s package_name visited depslist a i ds fs)
  from 2(2) have "package_name \<in> fst ` set (s_packages s)"
    by (auto split: option.splits dest: map_of_SomeD intro: rev_image_eqI)
  with 2(1) have "card (fst ` set (s_packages s) - set (visited @ [package_name]))
      < card (fst ` set (s_packages s) - set visited)"
    by (intro psubset_card_mono) auto
  then show ?case by simp
next
  case (3 s p_name rest st)
  show ?case by simp
next
  case (4 s p_name rest st st')
  from mp_visited_grows_aux(1)[OF 4(2) 4(1)]
  have "card (fst ` set (s_packages s) - set (fst st'))
      \<le> card (fst ` set (s_packages s) - set (fst st))"
    by (intro card_mono) auto
  then show ?case by auto
qed

declare mp_get_package_deps.simps [simp del]

text \<open>
  \<open>_list_metapackage_deps\<close>: one walk per constituent, each with fresh lists; the result
  is \<open>list(set(deps))\<close>, whose order Python does not fix (the model keeps the first
  occurrence of each object; only the set of the result is meaningful).
\<close>

fun lmd_loop :: "store \<Rightarrow> string list \<Rightarrow> addr list \<Rightarrow> error + addr list" where
  "lmd_loop s [] deps = Inr deps"
| "lmd_loop s (p # ps) deps =
     (case mp_get_package_deps s p ([], []) of
        Inl e \<Rightarrow> Inl e
      | Inr (visited, depslist) \<Rightarrow> lmd_loop s ps (deps @ depslist))"

fun list_metapackage_deps :: "store \<Rightarrow> obj \<Rightarrow> error + addr list" where
  "list_metapackage_deps s (MetaPackage i ps d) =
     (case lmd_loop s (map fst ps) [] of
        Inl e \<Rightarrow> Inl e
      | Inr deps \<Rightarrow> Inr (remdups deps))"
| "list_metapackage_deps s (Package i ds fs) = Inl (AttributeError ''list_packages'')"

subsection \<open>\<open>get_package_deps\<close>\<close>

text \<open>
  The list \<open>ret\<close> is either a fresh list (for a MetaPackage) or the list \<open>p.deps\<close> itself
  (for a Package): \<open>ret += ...\<close> then extends the list of the object in the heap, and the
  \<open>for\<close> loop, which reads the list by index, sees what was added.
\<close>

datatype retloc = Fresh "string list" | DepsOf addr

fun set_deps :: "obj \<Rightarrow> string list \<Rightarrow> obj" where
  "set_deps (Package i ds fs) ds' = Package i ds' fs"
| "set_deps (MetaPackage i ps d) ds' = MetaPackage i ps d"

fun deps_of :: "obj \<Rightarrow> string list" where
  "deps_of (Package i ds fs) = ds"
| "deps_of (MetaPackage i ps d) = []"

fun read_ret :: "store \<Rightarrow> retloc \<Rightarrow> string list" where
  "read_ret s (Fresh xs) = xs"
| "read_ret s (DepsOf a) = deps_of (heap s a)"

fun extend_ret :: "store \<Rightarrow> retloc \<Rightarrow> string list \<Rightarrow> store \<times> retloc" where
  "extend_ret s (Fresh xs) ys = (s, Fresh (xs @ ys))"
| "extend_ret s (DepsOf a) ys =
     (s\<lparr>heap := (heap s)(a := set_deps (heap s a) (deps_of (heap s a) @ ys))\<rparr>, DepsOf a)"

text \<open>\<open>[self.get_package(x) for x in ret]\<close>: the first missing name raises.\<close>

fun get_packages :: "store \<Rightarrow> string list \<Rightarrow> error + addr list" where
  "get_packages s [] = Inr []"
| "get_packages s (x # xs) =
     (case get_package s (Name x) of
        Inl e \<Rightarrow> Inl e
      | Inr a \<Rightarrow> (case get_packages s xs of Inl e \<Rightarrow> Inl e | Inr as \<Rightarrow> Inr (a # as)))"

text \<open>The last two lines: \<open>ret = sorted(set(ret))\<close>, then the lookup of every name.\<close>

definition finish_deps :: "store \<Rightarrow> string list \<Rightarrow> error + addr list" where
  "finish_deps s ret = get_packages s (sorted_list_of_set (set ret))"

text \<open>
  \<open>Enter pkg recursive\<close> is a call of \<open>get_package_deps\<close>; \<open>Iterate loc i\<close> is the same call
  at the head of its \<open>for name in ret\<close> loop, about to read index \<open>i\<close> of the list. The
  recursion of the source has no guard, so the function is partial: \<open>None\<close> is a call
  that does not return. The store is returned also when an exception is raised, since
  the lists extended so far stay extended.
\<close>

datatype frame = Enter pkg_arg bool | Iterate retloc nat

text \<open>\<open>if isinstance(pkg, package.Package): p = pkg else: p = self.get_package(pkg)\<close>\<close>

fun resolve_pkg :: "store \<Rightarrow> pkg_arg \<Rightarrow> error + addr" where
  "resolve_pkg s (Instance a) =
     (if is_MetaPackage (heap s a) then get_package s (Instance a) else Inr a)"
| "resolve_pkg s (Name n) = get_package s (Name n)"

text \<open>
  \<open>ret = [d.name for d in self._list_metapackage_deps(p)]\<close> for a MetaPackage,
  \<open>ret = p.deps\<close> otherwise.
\<close>

definition initial_ret :: "store \<Rightarrow> addr \<Rightarrow> error + retloc" where
  "initial_ret s p =
     (if is_MetaPackage (heap s p)
      then (case list_metapackage_deps s (heap s p) of
              Inl e \<Rightarrow> Inl e
            | Inr ds \<Rightarrow> Inr (Fresh (map (\<lambda>d. obj_name (heap s d)) ds)))
      else Inr (DepsOf p))"

partial_function (option) run_get_package_deps ::
    "store \<Rightarrow> frame \<Rightarrow> (store \<times> (error + addr list)) option" where
  "run_get_package_deps s fr =
     (case fr of
        Enter pkg recursive \<Rightarrow>
          (case resolve_pkg s pkg of
             Inl e \<Rightarrow> Some (s, Inl e)
           | Inr p \<Rightarrow>
               (case initial_ret s p of
                  Inl e \<Rightarrow> Some (s, Inl e)
                | Inr loc \<Rightarrow>
                    if recursive then run_get_package_deps s (Iterate loc 0)
                    else Some (s, finish_deps s (read_ret s loc))))
      | Iterate loc i \<Rightarrow>
          (if i < length (read_ret s loc)
           then Option.bind
                  (run_get_package_deps s (Enter (Name (read_ret s loc ! i)) True))
                  (\<lambda>(s', r). case r of
                       Inl e \<Rightarrow> Some (s', Inl e)
                     | Inr ds \<Rightarrow>
                         (case extend_ret s' loc (map (\<lambda>d. obj_name (heap s' d)) ds) of
                            (s'', loc') \<Rightarrow> run_get_package_deps s'' (Iterate loc' (Suc i))))
           else Some (s, finish_deps s (read_ret s loc))))"

declare run_get_package_deps.simps [code]

definition get_package_deps ::
    "store \<Rightarrow> pkg_arg \<Rightarrow> bool \<Rightarrow> (store \<times> (error + addr list)) option" where
  "get_package_deps s pkg recursive = run_get_package_deps s (Enter pkg recursive)"

subsection \<open>\<open>get_package_files_list\<close>\<close>

fun get_files_list :: "obj \<Rightarrow> string list" where
  "get_files_list (Package i ds fs) = fs"
| "get_files_list (MetaPackage i ps d) = []"

text \<open>\<open>_list_metapackage_files\<close>: \<open>sorted(list(set(l)))\<close>.\<close>

definition list_metapackage_files :: "store \<Rightarrow> obj \<Rightarrow> error + string list" where
  "list_metapackage_files s metapackage =
     (case list_metapackage_deps s metapackage of
        Inl e \<Rightarrow> Inl e
      | Inr ps \<Rightarrow>
          Inr (sorted_list_of_set (set (concat (map (\<lambda>p. get_files_list (heap s p)) ps)))))"

definition get_package_files_list :: "store \<Rightarrow> string \<Rightarrow> error + string list" where
  "get_package_files_list s n =
     (case get_package s (Name n) of
        Inl e \<Rightarrow> Inl e
      | Inr p \<Rightarrow>
          if is_MetaPackage (heap s p)
          then (case list_metapackage_files s (heap s p) of
                  Inl e \<Rightarrow> Inl e
                | Inr l \<Rightarrow> Inr (sort l))
          else Inr (sort (get_files_list (heap s p))))"

text \<open>
  The call \<open>self.store.get_package_deps(p)\<close> of the installer builder leaves \<open>recursive\<close> at
  its default \<open>False\<close>: no loop is entered and the store is not changed. This is that
  call as a total function (\<open>get_package_deps_False\<close> below relates the two).
\<close>

definition get_package_deps_direct :: "store \<Rightarrow> pkg_arg \<Rightarrow> error + addr list" where
  "get_package_deps_direct s pkg =
     (case resolve_pkg s pkg of
        Inl e \<Rightarrow> Inl e
      | Inr p \<Rightarrow>
          (case initial_ret s p of
             Inl e \<Rightarrow> Inl e
           | Inr loc \<Rightarrow> finish_deps s (read_ret s loc)))"

section \<open>The WiX builders (wix.py)\<close>

subsection \<open>Identifiers\<close>

text \<open>\<open>str.replace\<close> for a pattern of one character.\<close>

definition replace :: "char \<Rightarrow> string \<Rightarrow> string \<Rightarrow> string" where
  "replace old new str = concat (map (\<lambda>c. if c = old then new else [c]) str)"

definition format_id :: "string \<Rightarrow> bool \<Rightarrow> string" where
  "format_id str replace_dots =
     (let ret = replace (CHR ''_'') ''__'' str;
          ret = fold (\<lambda>r ret. replace r ''_'' ret)
                  [CHR ''/'', CHR ''-'', CHR '' '', CHR ''@'', CHR ''+''] ret;
          ret = (if replace_dots then replace (CHR ''.'') '''' ret else ret)
      in CHR ''_'' # ret)"

text \<open>
  \<open>os.path.split\<close> and \<open>os.path.join\<close> of the Python library, in their POSIX form: the
  tail is what follows the last slash; the head is what precedes it, with its trailing
  slashes removed unless it consists of slashes only.
\<close>

definition rstrip_slash :: "string \<Rightarrow> string" where
  "rstrip_slash p = rev (dropWhile (\<lambda>c. c = CHR ''/'') (rev p))"

definition os_path_split :: "string \<Rightarrow> string \<times> string" where
  "os_path_split p =
     (let tail = rev (takeWhile (\<lambda>c. c \<noteq> CHR ''/'') (rev p));
          head = rev (dropWhile (\<lambda>c. c \<noteq> CHR ''/'') (rev p))
      in (if head \<noteq> [] \<and> \<not> list_all (\<lambda>c. c = CHR ''/'') head then rstrip_slash head else head,
          tail))"


text \<open>The decimal numeral of a number, as \<open>'%s' % n\<close> prints it.\<close>

fun str_nat :: "nat \<Rightarrow> string" where
  "str_nat n =
     (if n < 10 then [char_of (48 + n)]
      else str_nat (n div 10) @ [char_of (48 + n mod 10)])"

declare str_nat.simps [simp del]

subsection \<open>The document and the state shared by both builders\<close>

text \<open>
  The document is built with \<open>etree.SubElement\<close> only, which appends a new last child to
  an element. The elements are kept in the order of their creation, each with a reference
  to its parent; an element reference is an index into that list, and the children of an
  element, in document order, are the elements that name it as parent, in list order.
\<close>

record elem =
  parent :: "nat option"
  tag :: string
  attrs :: "(string \<times> string) list"

text \<open>
  \<open>to_winepath\<close> (of \<open>cerbero.utils\<close>) and \<open>uuid.uuid1\<close> are not part of the sources: they
  are fields of the builder, the second as a sequence of identifiers read through a
  counter.
\<close>

record wixbase =
  package :: obj
  prefix :: string
  with_wine :: bool
  target_platform :: string
  to_winepath :: "string \<Rightarrow> string"
  uuid1 :: "nat \<Rightarrow> string"
  clock :: nat
  filled :: bool
  id_count :: nat
  ids :: "string \<rightharpoonup> nat"
  nodes :: "elem list"
  root :: "nat option"

text \<open>
  An operation of a builder returns normally with the new state, or raises with the
  state as it is at that moment: what was added to the document before the exception
  stays added.
\<close>

datatype 'b res = Ok 'b | Raise error 'b

fun state_of :: "'b res \<Rightarrow> 'b" where
  "state_of (Ok b) = b"
| "state_of (Raise e b) = b"

fun is_Ok :: "'b res \<Rightarrow> bool" where
  "is_Ok (Ok b) = True"
| "is_Ok (Raise e b) = False"

fun and_then :: "'b res \<Rightarrow> ('b \<Rightarrow> 'b res) \<Rightarrow> 'b res" where
  "and_then (Ok b) f = f b"
| "and_then (Raise e b) f = Raise e b"

definition SubElement ::
    "'a wixbase_scheme \<Rightarrow> nat \<Rightarrow> string \<Rightarrow> (string \<times> string) list \<Rightarrow> 'a wixbase_scheme \<times> nat" where
  "SubElement b par t as =
     (b\<lparr>nodes := nodes b @ [\<lparr>parent = Some par, tag = t, attrs = as\<rparr>]\<rparr>, length (nodes b))"


definition format_level :: "bool \<Rightarrow> string" where
  "format_level selected = (if selected then ''1'' else ''2'')"

definition format_absent :: "bool \<Rightarrow> string" where
  "format_absent required = (if required then ''disallow'' else ''allow'')"

definition format_path_id ::
    "'a wixbase_scheme \<Rightarrow> string \<Rightarrow> bool \<Rightarrow> 'a wixbase_scheme \<times> string" where
  "format_path_id b path replace_dots =
     (let ret = format_id (snd (os_path_split path)) replace_dots;
          count = (case ids b ret of None \<Rightarrow> 0 | Some c \<Rightarrow> c + 1);
          b' = b\<lparr>ids := (ids b)(ret \<mapsto> count)\<rparr>
      in (b', if count \<noteq> 0 then ret @ ''_'' @ str_nat count else ret))"

text \<open>
  \<open>fill\<close>: \<open>_fill\<close> is the method of the subclass, passed as an argument. It may not
  return (\<open>None\<close>); when it raises, \<open>self.filled\<close> is not set.
\<close>

definition fill ::
    "('a wixbase_scheme \<Rightarrow> 'a wixbase_scheme res option) \<Rightarrow> 'a wixbase_scheme
       \<Rightarrow> 'a wixbase_scheme res option" where
  "fill fill_impl b =
     (if filled b then Some (Ok b)
      else (case fill_impl b of
              None \<Rightarrow> None
            | Some (Raise e b') \<Rightarrow> Some (Raise e b')
            | Some (Ok b') \<Rightarrow> Some (Ok (b'\<lparr>filled := True\<rparr>))))"

subsection \<open>MergeModule\<close>












subsection \<open>MSI\<close>

record msi = wixbase +
  packages_deps :: "addr list"
  store :: store
  wix_config :: string
  product :: "nat option"
  main_feature :: "nat option"
  installdir :: "nat option"

text \<open>\<open>_add_dir\<close>; a parent that is \<open>None\<close> is a TypeError of \<open>SubElement\<close>.\<close>

definition add_dir :: "msi \<Rightarrow> nat option \<Rightarrow> string \<Rightarrow> string \<Rightarrow> (msi \<times> nat) res" where
  "add_dir b par dir_id nm =
     (case par of
        None \<Rightarrow> Raise (TypeError ''SubElement'') (b, 0)
      | Some p \<Rightarrow> Ok (SubElement b p ''Directory'' [(''Id'', dir_id), (''Name'', nm)]))"

fun install_dir_of :: "obj \<Rightarrow> string \<Rightarrow> error + string" where
  "install_dir_of (MetaPackage i ps d) platform =
     (case map_of d platform of None \<Rightarrow> Inl (KeyError platform) | Some x \<Rightarrow> Inr x)"
| "install_dir_of (Package i ds fs) platform = Inl (AttributeError ''install_dir'')"

definition add_install_dir :: "msi \<Rightarrow> msi res" where
  "add_install_dir b =
     (case add_dir b (product b) ''TARGETDIR'' ''SourceDir'' of
        Raise e (b', x) \<Rightarrow> Raise e b'
      | Ok (b1, tdir) \<Rightarrow>
          (case add_dir b1 (Some tdir) ''ProgramFilesFolder'' ''PFiles'' of
             Raise e (b', x) \<Rightarrow> Raise e b'
           | Ok (b2, pfdir) \<Rightarrow>
               (case install_dir_of (package b2) (target_platform b2) of
                  Inl e \<Rightarrow> Raise e b2
                | Inr install_dir \<Rightarrow>
                    (case add_dir b2 (Some pfdir) (format_id install_dir False) install_dir of
                       Raise e (b', x) \<Rightarrow> Raise e b'
                     | Ok (b3, sdkdir) \<Rightarrow>
                         (case add_dir b3 (Some sdkdir) ''INSTALLDIR'' ''.'' of
                            Raise e (b', x) \<Rightarrow> Raise e b'
                          | Ok (b4, inst) \<Rightarrow> Ok (b4\<lparr>installdir := Some inst\<rparr>))))))"

definition package_id :: "string \<Rightarrow> string" where
  "package_id package_name = format_id package_name False"

text \<open>
  The MergeRef children of one feature. \<open>list(set(deps) - set(required_packages))\<close> has no
  fixed order in Python; the model keeps the order of \<open>deps\<close>.
\<close>

definition mergerefs :: "store \<Rightarrow> addr \<Rightarrow> bool \<Rightarrow> addr list \<Rightarrow> error + addr list" where
  "mergerefs s p required required_packages =
     (case get_package_deps_direct s (Instance p) of
        Inl e \<Rightarrow> Inl e
      | Inr deps \<Rightarrow>
          if \<not> required then Inr (filter (\<lambda>x. x \<notin> set required_packages) (remdups deps))
          else Inr (filter (\<lambda>x. x \<in> set required_packages) deps))"

definition add_merge_module :: "msi \<Rightarrow> addr \<Rightarrow> bool \<Rightarrow> bool \<Rightarrow> addr list \<Rightarrow> msi res" where
  "add_merge_module b p required selected required_packages =
     (case main_feature b of
        None \<Rightarrow> Raise (AttributeError ''main_feature'') b
      | Some mf \<Rightarrow>
          (case SubElement b mf ''Feature''
                  [(''Id'', format_id (obj_name (heap (store b) p)) False),
                   (''Title'', shortdesc (info_of (heap (store b) p))),
                   (''Level'', format_level selected),
                   (''Display'', ''expand''),
                   (''Absent'', format_absent required)] of
             (b1, feature) \<Rightarrow>
               (case mergerefs (store b1) p required required_packages of
                  Inl e \<Rightarrow> Raise e b1
                | Inr refs \<Rightarrow>
                    Ok (fst (SubElement
                      (fold (\<lambda>q c. fst (SubElement c feature ''MergeRef''
                           [(''Id'', package_id (obj_name (heap (store b1) q)))])) refs b1)
                      feature ''MergeRef''
                      [(''Id'', package_id (obj_name (heap (store b1) p)))])))))"

text \<open>\<open>[(self.store.get_package(x[0]), x[1], x[2]) for x in self.package.packages]\<close>\<close>

fun lookup_packages ::
    "store \<Rightarrow> (string \<times> bool \<times> bool) list \<Rightarrow> error + (addr \<times> bool \<times> bool) list" where
  "lookup_packages s [] = Inr []"
| "lookup_packages s ((n, required, selected) # xs) =
     (case get_package s (Name n) of
        Inl e \<Rightarrow> Inl e
      | Inr a \<Rightarrow>
          (case lookup_packages s xs of
             Inl e \<Rightarrow> Inl e
           | Inr ys \<Rightarrow> Inr ((a, required, selected) # ys)))"

text \<open>\<open>for p in req: required_packages.extend(self.store.get_package_deps(p))\<close>\<close>

fun extend_required :: "store \<Rightarrow> addr list \<Rightarrow> addr list \<Rightarrow> error + addr list" where
  "extend_required s [] required_packages = Inr required_packages"
| "extend_required s (p # req) required_packages =
     (case get_package_deps_direct s (Instance p) of
        Inl e \<Rightarrow> Inl e
      | Inr ds \<Rightarrow> extend_required s req (required_packages @ ds))"

text \<open>The list \<open>required_packages\<close> of \<open>_add_merge_modules\<close>, from the filtered \<open>packages\<close>.\<close>

definition required_packages_of :: "store \<Rightarrow> (addr \<times> bool \<times> bool) list \<Rightarrow> error + addr list" where
  "required_packages_of s packages =
     (let req = map fst (filter (\<lambda>x. fst (snd x) = True) packages)
      in extend_required s req req)"

fun add_merge_module_loop ::
    "msi \<Rightarrow> (addr \<times> bool \<times> bool) list \<Rightarrow> addr list \<Rightarrow> msi res" where
  "add_merge_module_loop b [] required_packages = Ok b"
| "add_merge_module_loop b ((p, required, selected) # xs) required_packages =
     (if p \<in> set (packages_deps b)
      then and_then (add_merge_module b p required selected required_packages)
             (\<lambda>b'. add_merge_module_loop b' xs required_packages)
      else add_merge_module_loop b xs required_packages)"

fun packages_of :: "obj \<Rightarrow> error + (string \<times> bool \<times> bool) list" where
  "packages_of (MetaPackage i ps d) = Inr ps"
| "packages_of (Package i ds fs) = Inl (AttributeError ''packages'')"

definition add_merge_modules :: "msi \<Rightarrow> msi res" where
  "add_merge_modules b =
     (case product b of
        None \<Rightarrow> Raise (TypeError ''SubElement'') b
      | Some prd \<Rightarrow>
          (case SubElement b prd ''Feature''
                  [(''Id'', format_id (obj_name (package b)) False),
                   (''Title'', title (info_of (package b))),
                   (''Level'', ''1''), (''Display'', ''expand''),
                   (''AllowAdvertise'', ''no''), (''ConfigurableDirectory'', ''INSTALLDIR'')] of
             (b0, mf) \<Rightarrow>
               (let b1 = b0\<lparr>main_feature := Some mf\<rparr> in
                case packages_of (package b1) of
                  Inl e \<Rightarrow> Raise e b1
                | Inr ps \<Rightarrow>
                    (case lookup_packages (store b1) ps of
                       Inl e \<Rightarrow> Raise e b1
                     | Inr looked_up \<Rightarrow>
                         (let packages = filter (\<lambda>x. fst x \<in> set (packages_deps b1)) looked_up in
                          case required_packages_of (store b1) packages of
                            Inl e \<Rightarrow> Raise e b1
                          | Inr required_packages \<Rightarrow>
                              and_then (add_merge_module_loop b1 packages required_packages)
                                (\<lambda>b2. case installdir b2 of
                                   None \<Rightarrow> Raise (AttributeError ''installdir'') b2
                                 | Some inst \<Rightarrow>
                                     Ok (fold (\<lambda>q c. fst (SubElement c inst ''Merge''
                                           [(''Id'', package_id (obj_name (heap (store b2) q))),
                                            (''Language'', ''1033''),
                                            (''SourceFile'', obj_name (heap (store b2) q) @ ''.msm''),
                                            (''DiskId'', ''1'')]))
                                         (packages_deps b2) b2)))))))"

definition msi_fill :: "msi \<Rightarrow> msi res option" where
  "msi_fill b = Some (and_then (add_install_dir b) add_merge_modules)"

section \<open>Loading the store (\<open>PackagesStore.__init__\<close>, \<open>_load_packages\<close>)\<close>

text \<open>
  What the loader reads is an argument of the model. The path \<open>config.packages_dir\<close> is
  missing, is something that cannot be listed, or is a directory with its files, in the
  order \<open>os.listdir\<close> gives them. A file is described by what \<open>execfile\<close> does with it: it
  raises an exception (a file that does not parse raises SyntaxError), or it leaves a
  namespace that binds \<open>Package\<close>, \<open>MetaPackage\<close>, both or neither; for a bound class, the
  instantiation followed by \<open>prepare()\<close> raises or gives the object. Only exceptions
  derived from \<open>Exception\<close> are modelled, the ones the \<open>except\<close> clause catches.
\<close>

datatype 'a attempt = Fails string | Gives 'a

datatype descriptor =
  ExecFails string
  | Defines "obj attempt option" "obj attempt option"

datatype dir_state = Missing | NotADirectory | Directory "(string \<times> descriptor) list"

definition PKG_EXT :: string where
  "PKG_EXT = ''.package''"

definition endswith :: "string \<Rightarrow> string \<Rightarrow> bool" where
  "endswith f ext = (length ext \<le> length f \<and> drop (length f - length ext) f = ext)"

text \<open>
  \<open>_load_package_from_file\<close>: the object, or \<open>None\<close> after the warning of the \<open>except\<close>
  clause.
\<close>

fun load_package_from_file :: "descriptor \<Rightarrow> obj option \<times> string list" where
  "load_package_from_file (ExecFails ex) = (None, [''Error loading package '' @ ex])"
| "load_package_from_file (Defines (Some (Gives p)) m) = (Some p, [])"
| "load_package_from_file (Defines (Some (Fails ex)) m) =
     (None, [''Error loading package '' @ ex])"
| "load_package_from_file (Defines None (Some (Gives p))) = (Some p, [])"
| "load_package_from_file (Defines None (Some (Fails ex))) =
     (None, [''Error loading package '' @ ex])"
| "load_package_from_file (Defines None None) =
     (None, [''Error loading package Package or MetaPackage class found''])"

text \<open>A new object takes the next free address of the heap.\<close>

definition new_object :: "store \<Rightarrow> obj \<Rightarrow> store \<times> addr" where
  "new_object s p = (s\<lparr>heap := (heap s)(fresh s := p), fresh := Suc (fresh s)\<rparr>, fresh s)"

text \<open>The loop of \<open>_load_packages\<close>, with the warnings printed so far.\<close>

fun load_packages_loop ::
    "store \<times> string list \<Rightarrow> (string \<times> descriptor) list \<Rightarrow> store \<times> string list" where
  "load_packages_loop (s, warnings) [] = (s, warnings)"
| "load_packages_loop (s, warnings) ((f, d) # rest) =
     (if \<not> endswith f PKG_EXT then load_packages_loop (s, warnings) rest
      else (case load_package_from_file d of
              (None, ws) \<Rightarrow>
                load_packages_loop
                  (s, warnings @ ws @ [''Could not found a valid package in '' @ f]) rest
            | (Some p, ws) \<Rightarrow>
                (case new_object s p of
                   (s', a) \<Rightarrow> load_packages_loop (add_package s' a, warnings @ ws) rest)))"

definition load_packages ::
    "store \<times> string list \<Rightarrow> (string \<times> descriptor) list \<Rightarrow> store \<times> string list" where
  "load_packages sw files = load_packages_loop (fst sw\<lparr>s_packages := []\<rparr>, snd sw) files"

definition empty_store :: store where
  "empty_store =
     \<lparr>heap = (\<lambda>a. Package \<lparr>name = [], version = [], shortdesc = [], longdesc = [],
                            title = [], vendor = [], uuid = None\<rparr> [] []),
      s_packages = [], fresh = 0\<rparr>"

text \<open>
  \<open>__init__(config, load)\<close>, given the state of \<open>config.packages_dir\<close>; \<open>os.listdir\<close> of
  something that is not a directory raises OSError.
\<close>

definition init_store :: "dir_state \<Rightarrow> bool \<Rightarrow> error + (store \<times> string list)" where
  "init_store packages_dir load =
     (if \<not> load then Inr (empty_store, [])
      else (case packages_dir of
              Missing \<Rightarrow> Inl (FatalError ''Packages dir not found'')
            | NotADirectory \<Rightarrow> Inl (OSError ''listdir'')
            | Directory files \<Rightarrow> Inr (load_packages (empty_store, []) files)))"

section \<open>Auxiliary notions and example inputs\<close>

definition obj_le :: "obj \<Rightarrow> obj \<Rightarrow> bool" where
  "obj_le p p' = (\<exists>ys. p' = set_deps p (deps_of p @ ys))"

definition store_le :: "store \<Rightarrow> store \<Rightarrow> bool" where
  "store_le s s' =
     (s_packages s' = s_packages s \<and> fresh s' = fresh s \<and> (\<forall>a. obj_le (heap s a) (heap s' a)))"

definition store_ok :: "store \<Rightarrow> bool" where
  "store_ok s = list_all (\<lambda>(k, a). obj_name (heap s a) = k) (s_packages s)"

fun frame_names :: "store \<Rightarrow> frame \<Rightarrow> string set" where
  "frame_names s (Iterate loc i) = set (read_ret s loc)"
| "frame_names s (Enter pkg recursive) =
     (case resolve_pkg s pkg of
        Inl e \<Rightarrow> {}
      | Inr p \<Rightarrow> (case initial_ret s p of Inl e \<Rightarrow> {} | Inr loc \<Rightarrow> set (read_ret s loc)))"

definition pkg_edges :: "store \<Rightarrow> (string \<times> string) set" where
  "pkg_edges s =
     {(n, m). \<exists>a. map_of (s_packages s) n = Some a \<and> m \<in> set (deps_of (heap s a))}"

definition closure_of :: "store \<Rightarrow> string list \<Rightarrow> addr set" where
  "closure_of s roots =
     {a. \<exists>c \<in> set roots. \<exists>n. (c, n) \<in> (pkg_edges s)\<^sup>* \<and> map_of (s_packages s) n = Some a}"

definition walked :: "store \<Rightarrow> string set \<Rightarrow> string list \<times> addr list \<Rightarrow>
    string list \<times> addr list \<Rightarrow> bool" where
  "walked s roots st st' =
     (\<exists>w. fst st' = fst st @ w \<and>
        snd st' = snd st @ map (\<lambda>x. the (map_of (s_packages s) x)) w \<and>
        (\<forall>x \<in> set w. map_of (s_packages s) x \<noteq> None) \<and>
        roots \<subseteq> set (fst st) \<union> set w \<and>
        set w \<subseteq> (pkg_edges s)\<^sup>* `` roots \<and>
        (\<forall>x \<in> set w. pkg_edges s `` {x} \<subseteq> set (fst st) \<union> set w))"

definition mkinfo :: "string \<Rightarrow> info" where
  "mkinfo n = \<lparr>name = n, version = ''1.0'', shortdesc = n, longdesc = n, title = n,
     vendor = ''cerbero'', uuid = None\<rparr>"

definition cyc_store :: store where
  "cyc_store = \<lparr>heap = (\<lambda>a. if a = 0 then Package (mkinfo ''A'') [''B''] []
       else Package (mkinfo ''B'') [''A''] []),
     s_packages = [(''A'', 0), (''B'', 1)], fresh = 2\<rparr>"


definition chain_store :: store where
  "chain_store = \<lparr>heap = (\<lambda>a. if a = 0 then Package (mkinfo ''base'') [] [''lib/base.so'']
       else if a = 1 then Package (mkinfo ''core'') [''base''] [''lib/core.so'', ''lib/base.so'']
       else if a = 2 then Package (mkinfo ''app'') [''core''] [''bin/app'']
       else MetaPackage (mkinfo ''sdk'') [(''app'', True, True), (''core'', False, True)]
              [(''windows'', ''sdk'')]),
     s_packages = [(''base'', 0), (''core'', 1), (''app'', 2), (''sdk'', 3)], fresh = 4\<rparr>"


definition dup_store :: store where
  "dup_store = \<lparr>heap = (\<lambda>a. Package (mkinfo ''dup'') [] [''bin/tool'', ''bin/tool'']),
     s_packages = [(''dup'', 0)], fresh = 1\<rparr>"

text \<open>
  The names an object refers to: the \<open>deps\<close> of a Package, the first components of the
  \<open>packages\<close> of a MetaPackage.
\<close>

fun referenced :: "obj \<Rightarrow> string list" where
  "referenced (Package i ds fs) = ds"
| "referenced (MetaPackage i ps d) = map fst ps"

text \<open>
  Every name that a registered object refers to is registered, and denotes a plain Package
  (the walk of \<open>_list_metapackage_deps\<close> reads \<open>p.deps\<close> of every package it meets).
\<close>

definition refs_ok :: "store \<Rightarrow> bool" where
  "refs_ok s =
     list_all (\<lambda>(k, a).
        list_all (\<lambda>n. case map_of (s_packages s) n of
                         None \<Rightarrow> False
                       | Some c \<Rightarrow> \<not> is_MetaPackage (heap s c))
          (referenced (heap s a)))
       (s_packages s)"

text \<open>
  The stores for which \<open>get_package_deps\<close> is shown to return: keys are names, references
  are resolved, and the dependency graph has no cycle.
\<close>

definition base_ok :: "store \<Rightarrow> bool" where
  "base_ok s = (store_ok s \<and> refs_ok s \<and> acyclic (pkg_edges s))"

text \<open>
  What the recursive calls keep of the store \<open>s0\<close> the outermost call started from: the
  lists \<open>deps\<close> only grow, and only by names that were already reachable in \<open>s0\<close>.
\<close>

definition inv_rel :: "store \<Rightarrow> store \<Rightarrow> bool" where
  "inv_rel s0 s = (store_le s0 s \<and> pkg_edges s \<subseteq> (pkg_edges s0)\<^sup>+)"

text \<open>The objects a call on the name \<open>n\<close> may extend: those reachable from \<open>n\<close>.\<close>

definition touched :: "store \<Rightarrow> string \<Rightarrow> addr set" where
  "touched s0 n = {b. \<exists>k. (n, k) \<in> (pkg_edges s0)\<^sup>* \<and> map_of (s_packages s0) k = Some b}"

text \<open>
  The recursive call on the name \<open>n\<close> returns a list from every store that \<open>inv_rel\<close>
  relates to \<open>s0\<close>; the list holds packages reachable from \<open>n\<close> in \<open>s0\<close>, and objects
  not reachable from \<open>n\<close> are left as they were.
\<close>

definition returns_ok :: "store \<Rightarrow> string \<Rightarrow> bool" where
  "returns_ok s0 n =
     (\<forall>s. inv_rel s0 s \<longrightarrow>
        (\<exists>s' ds. run_get_package_deps s (Enter (Name n) True) = Some (s', Inr ds) \<and>
           inv_rel s0 s' \<and>
           (\<forall>d \<in> set ds. (n, obj_name (heap s0 d)) \<in> (pkg_edges s0)\<^sup>+) \<and>
           (\<forall>b. b \<notin> touched s0 n \<longrightarrow> heap s' b = heap s b)))"

text \<open>
  The list the loop runs over is a fresh one, or the \<open>deps\<close> of a registered plain
  Package \<open>n\<close>, in which case \<open>D\<close> is what is reachable from \<open>n\<close>.
\<close>

definition loc_ok :: "store \<Rightarrow> string set \<Rightarrow> retloc \<Rightarrow> bool" where
  "loc_ok s0 D loc =
     (case loc of
        Fresh xs \<Rightarrow> True
      | DepsOf a \<Rightarrow>
          (\<exists>n. map_of (s_packages s0) n = Some a \<and> \<not> is_MetaPackage (heap s0 a) \<and>
             D = (pkg_edges s0)\<^sup>+ `` {n}))"

text \<open>The token that \<open>_format_path_id\<close> computes for a call, and a run of calls on one builder.\<close>

definition token :: "string \<times> bool \<Rightarrow> string" where
  "token c = format_id (snd (os_path_split (fst c))) (snd c)"

fun format_path_ids :: "'a wixbase_scheme \<Rightarrow> (string \<times> bool) list \<Rightarrow> string list" where
  "format_path_ids b [] = []"
| "format_path_ids b (c # cs) =
     (case format_path_id b (fst c) (snd c) of (b', i) \<Rightarrow> i # format_path_ids b' cs)"

definition next_count :: "(string \<rightharpoonup> nat) \<Rightarrow> string \<Rightarrow> nat" where
  "next_count m t = (case m t of None \<Rightarrow> 0 | Some c \<Rightarrow> c + 1)"

definition with_suffix :: "string \<Rightarrow> nat \<Rightarrow> string" where
  "with_suffix t k = (if k \<noteq> 0 then t @ ''_'' @ str_nat k else t)"

definition nat_of_str :: "string \<Rightarrow> nat" where
  "nat_of_str s = fold (\<lambda>c acc. 10 * acc + (of_char c - 48)) s 0"

definition wb0 :: wixbase where
  "wb0 = \<lparr>package = Package (mkinfo ''core'') [] [], prefix = ''/opt/sdk'', with_wine = False,
     target_platform = ''windows'', to_winepath = (\<lambda>p. ''z:'' @ p),
     uuid1 = (\<lambda>n. ''uuid-'' @ str_nat n),
     clock = 0, filled = False, id_count = 0, ids = Map.empty, nodes = [], root = None\<rparr>"

definition ghost_store :: store where
  "ghost_store = \<lparr>heap = (\<lambda>a. if a = 0 then Package (mkinfo ''base'') [] [''lib/base.so'']
       else MetaPackage (mkinfo ''sdk'') [(''base'', True, True), (''ghost'', True, True)]
              [(''windows'', ''sdk'')]),
     s_packages = [(''base'', 0), (''sdk'', 1)], fresh = 2\<rparr>"

definition ghost_msi :: msi where
  "ghost_msi = wixbase.extend
     (wb0\<lparr>package := heap ghost_store 1,
          nodes := [\<lparr>parent = None, tag = ''Wix'', attrs = []\<rparr>,
                    \<lparr>parent = Some 0, tag = ''Product'', attrs = []\<rparr>],
          root := Some 0\<rparr>)
     \<lparr>packages_deps = [0], store = ghost_store, wix_config = ''Config.wxi'',
      product = Some 1, main_feature = None, installdir = None\<rparr>"

definition chain_msi :: msi where
  "chain_msi = wixbase.extend
     (wb0\<lparr>package := heap chain_store 3,
          nodes := [\<lparr>parent = None, tag = ''Wix'', attrs = []\<rparr>,
                    \<lparr>parent = Some 0, tag = ''Product'', attrs = []\<rparr>],
          root := Some 0\<rparr>)
     \<lparr>packages_deps = [2, 1, 0], store = chain_store, wix_config = ''Config.wxi'',
      product = Some 1, main_feature = None, installdir = None\<rparr>"

definition valid_descriptor :: "string \<times> descriptor \<Rightarrow> bool" where
  "valid_descriptor fd =
     (endswith (fst fd) PKG_EXT \<and> fst (load_package_from_file (snd fd)) \<noteq> None)"

definition bad_descriptor :: "string \<times> descriptor \<Rightarrow> bool" where
  "bad_descriptor fd =
     (endswith (fst fd) PKG_EXT \<and> fst (load_package_from_file (snd fd)) = None)"

definition warnings_of :: "string \<times> descriptor \<Rightarrow> string list" where
  "warnings_of fd =
     snd (load_package_from_file (snd fd)) @ [''Could not found a valid package in '' @ fst fd]"

definition example_dir :: dir_state where
  "example_dir = Directory
     [(''base.package'', Defines (Some (Gives (Package (mkinfo ''base'') [] [''lib/base.so'']))) None),
      (''broken.package'', ExecFails ''invalid syntax''),
      (''README'', ExecFails ''invalid syntax''),
      (''empty.package'', Defines None None),
      (''sdk.package'', Defines None
         (Some (Gives (MetaPackage (mkinfo ''sdk'') [(''base'', True, True)] []))))]"











section \<open>Properties\<close>

lemma run_Enter:
  "run_get_package_deps s (Enter pkg recursive) =
     (case resolve_pkg s pkg of
        Inl e \<Rightarrow> Some (s, Inl e)
      | Inr p \<Rightarrow>
          (case initial_ret s p of
             Inl e \<Rightarrow> Some (s, Inl e)
           | Inr loc \<Rightarrow>
               if recursive then run_get_package_deps s (Iterate loc 0)
               else Some (s, finish_deps s (read_ret s loc))))"
  by (subst run_get_package_deps.simps) simp

lemma run_Iterate:
  "run_get_package_deps s (Iterate loc i) =
     (if i < length (read_ret s loc)
      then Option.bind
             (run_get_package_deps s (Enter (Name (read_ret s loc ! i)) True))
             (\<lambda>(s', r). case r of
                  Inl e \<Rightarrow> Some (s', Inl e)
                | Inr ds \<Rightarrow>
                    (case extend_ret s' loc (map (\<lambda>d. obj_name (heap s' d)) ds) of
                       (s'', loc') \<Rightarrow> run_get_package_deps s'' (Iterate loc' (Suc i))))
      else Some (s, finish_deps s (read_ret s loc)))"
  by (subst run_get_package_deps.simps) simp

lemma run_induct [consumes 1, case_names resolve_fails initial_fails direct recursive
    loop_end loop_raise loop_step]:
  assumes ret: "run_get_package_deps s fr = Some x"
    and resolve_fails: "\<And>s pkg recursive e.
        resolve_pkg s pkg = Inl e \<Longrightarrow> P s (Enter pkg recursive) (s, Inl e)"
    and initial_fails: "\<And>s pkg recursive p e.
        resolve_pkg s pkg = Inr p \<Longrightarrow> initial_ret s p = Inl e \<Longrightarrow>
        P s (Enter pkg recursive) (s, Inl e)"
    and direct: "\<And>s pkg p loc.
        resolve_pkg s pkg = Inr p \<Longrightarrow> initial_ret s p = Inr loc \<Longrightarrow>
        P s (Enter pkg False) (s, finish_deps s (read_ret s loc))"
    and recursive: "\<And>s pkg p loc x.
        resolve_pkg s pkg = Inr p \<Longrightarrow> initial_ret s p = Inr loc \<Longrightarrow>
        run_get_package_deps s (Iterate loc 0) = Some x \<Longrightarrow>
        P s (Iterate loc 0) x \<Longrightarrow> P s (Enter pkg True) x"
    and loop_end: "\<And>s loc i.
        \<not> i < length (read_ret s loc) \<Longrightarrow>
        P s (Iterate loc i) (s, finish_deps s (read_ret s loc))"
    and loop_raise: "\<And>s loc i s1 e.
        i < length (read_ret s loc) \<Longrightarrow>
        run_get_package_deps s (Enter (Name (read_ret s loc ! i)) True) = Some (s1, Inl e) \<Longrightarrow>
        P s (Enter (Name (read_ret s loc ! i)) True) (s1, Inl e) \<Longrightarrow>
        P s (Iterate loc i) (s1, Inl e)"
    and loop_step: "\<And>s loc i s1 ds s2 loc2 x.
        i < length (read_ret s loc) \<Longrightarrow>
        run_get_package_deps s (Enter (Name (read_ret s loc ! i)) True) = Some (s1, Inr ds) \<Longrightarrow>
        P s (Enter (Name (read_ret s loc ! i)) True) (s1, Inr ds) \<Longrightarrow>
        extend_ret s1 loc (map (\<lambda>d. obj_name (heap s1 d)) ds) = (s2, loc2) \<Longrightarrow>
        run_get_package_deps s2 (Iterate loc2 (Suc i)) = Some x \<Longrightarrow>
        P s2 (Iterate loc2 (Suc i)) x \<Longrightarrow> P s (Iterate loc i) x"
  shows "P s fr x"
proof -
  have "run_get_package_deps s fr = Some x \<and> P s fr x"
  proof (rule run_get_package_deps.raw_induct
      [where P = "\<lambda>s fr x. run_get_package_deps s fr = Some x \<and> P s fr x", OF _ ret])
    fix f s fr x
    assume IH: "\<And>s fr x. f s fr = Some x \<Longrightarrow> run_get_package_deps s fr = Some x \<and> P s fr x"
      and eq: "(case fr of
        Enter pkg recursive \<Rightarrow>
          (case resolve_pkg s pkg of
             Inl e \<Rightarrow> Some (s, Inl e)
           | Inr p \<Rightarrow>
               (case initial_ret s p of
                  Inl e \<Rightarrow> Some (s, Inl e)
                | Inr loc \<Rightarrow>
                    if recursive then f s (Iterate loc 0)
                    else Some (s, finish_deps s (read_ret s loc))))
      | Iterate loc i \<Rightarrow>
          (if i < length (read_ret s loc)
           then Option.bind
                  (f s (Enter (Name (read_ret s loc ! i)) True))
                  (\<lambda>(s', r). case r of
                       Inl e \<Rightarrow> Some (s', Inl e)
                     | Inr ds \<Rightarrow>
                         (case extend_ret s' loc (map (\<lambda>d. obj_name (heap s' d)) ds) of
                            (s'', loc') \<Rightarrow> f s'' (Iterate loc' (Suc i))))
           else Some (s, finish_deps s (read_ret s loc)))) = Some x"
    show "run_get_package_deps s fr = Some x \<and> P s fr x"
    proof (cases fr)
      case (Enter pkg recursive)
      show ?thesis
      proof (cases "resolve_pkg s pkg")
        case (Inl e)
        with eq Enter show ?thesis by (auto simp: run_Enter intro: resolve_fails)
      next
        case p: (Inr p)
        show ?thesis
        proof (cases "initial_ret s p")
          case (Inl e)
          with eq Enter p show ?thesis by (auto simp: run_Enter intro: initial_fails)
        next
          case loc: (Inr loc)
          show ?thesis
          proof (cases recursive)
            case False
            with eq Enter p loc show ?thesis by (auto simp: run_Enter intro: direct)
          next
            case True
            with eq Enter p loc have "f s (Iterate loc 0) = Some x" by simp
            from IH[OF this] Enter p loc True show ?thesis
              by (auto simp: run_Enter intro: recursive)
          qed
        qed
      qed
    next
      case (Iterate loc i)
      show ?thesis
      proof (cases "i < length (read_ret s loc)")
        case False
        with eq Iterate show ?thesis by (auto simp: run_Iterate intro: loop_end)
      next
        case True
        with eq Iterate obtain s1 r1 where
          c1: "f s (Enter (Name (read_ret s loc ! i)) True) = Some (s1, r1)" and
          c2: "(case r1 of
                       Inl e \<Rightarrow> Some (s1, Inl e)
                     | Inr ds \<Rightarrow>
                         (case extend_ret s1 loc (map (\<lambda>d. obj_name (heap s1 d)) ds) of
                            (s'', loc') \<Rightarrow> f s'' (Iterate loc' (Suc i)))) = Some x"
          by (auto simp: bind_eq_Some_conv)
        note h1 = IH[OF c1]
        show ?thesis
        proof (cases r1)
          case (Inl e)
          with c2 h1 True Iterate show ?thesis
            by (auto simp: run_Iterate[of s loc i] intro: loop_raise)
        next
          case (Inr ds)
          obtain s2 loc2 where
            ex: "extend_ret s1 loc (map (\<lambda>d. obj_name (heap s1 d)) ds) = (s2, loc2)"
            by (cases "extend_ret s1 loc (map (\<lambda>d. obj_name (heap s1 d)) ds)")
          with c2 Inr have "f s2 (Iterate loc2 (Suc i)) = Some x" by simp
          note h2 = IH[OF this]
          from h1 h2 ex Inr True have "P s (Iterate loc i) x"
            by (auto intro: loop_step)
          moreover from h1 h2 ex Inr True have "run_get_package_deps s (Iterate loc i) = Some x"
            by (simp add: run_Iterate[of s loc i])
          ultimately show ?thesis using Iterate by simp
        qed
      qed
    qed
  qed
  then show ?thesis by simp
qed

lemma obj_le_refl: "obj_le p p"
  unfolding obj_le_def by (rule exI[of _ "[]"]) (cases p; simp)

lemma obj_le_trans: "obj_le p q \<Longrightarrow> obj_le q r \<Longrightarrow> obj_le p r"
  unfolding obj_le_def by (cases p) auto

lemma store_le_refl: "store_le s s"
  by (simp add: store_le_def obj_le_refl)

lemma store_le_trans: "store_le s t \<Longrightarrow> store_le t u \<Longrightarrow> store_le s u"
  unfolding store_le_def by (auto intro: obj_le_trans)

lemma obj_le_extend: "obj_le p (set_deps p (deps_of p @ ys))"
  unfolding obj_le_def by blast

lemma store_le_extend_ret: "extend_ret s loc ys = (s', loc') \<Longrightarrow> store_le s s'"
  by (cases loc) (auto simp: store_le_def obj_le_refl obj_le_extend)

lemma obj_le_facts:
  assumes "obj_le p p'"
  shows "info_of p' = info_of p" "is_MetaPackage p' = is_MetaPackage p"
    "get_files_list p' = get_files_list p" "set (deps_of p) \<subseteq> set (deps_of p')"
    "obj_name p' = obj_name p"
  using assms unfolding obj_le_def obj_name_def by (cases p; auto)+

lemma store_le_facts:
  assumes "store_le s s'"
  shows "s_packages s' = s_packages s" "obj_name (heap s' a) = obj_name (heap s a)"
    "is_MetaPackage (heap s' a) = is_MetaPackage (heap s a)"
    "set (deps_of (heap s a)) \<subseteq> set (deps_of (heap s' a))"
    "get_files_list (heap s' a) = get_files_list (heap s a)"
  using assms obj_le_facts[of "heap s a" "heap s' a"] unfolding store_le_def by auto

lemma store_ok_le: "store_le s s' \<Longrightarrow> store_ok s \<Longrightarrow> store_ok s'"
  by (simp add: store_ok_def store_le_facts)

lemma read_ret_extend:
  assumes "store_le s s1" "extend_ret s1 loc ys = (s2, loc2)"
  shows "set (read_ret s loc) \<subseteq> set (read_ret s2 loc2)"
proof (cases loc)
  case (Fresh xs)
  with assms show ?thesis by auto
next
  case (DepsOf a)
  with assms(2) have "read_ret s2 loc2 = deps_of (set_deps (heap s1 a) (deps_of (heap s1 a) @ ys))"
    by auto
  moreover have "set (deps_of (heap s1 a)) \<subseteq> set (deps_of (set_deps (heap s1 a) (deps_of (heap s1 a) @ ys)))"
    by (cases "heap s1 a") auto
  moreover note store_le_facts(4)[OF assms(1), of a]
  ultimately show ?thesis using DepsOf by auto
qed

lemma run_result:
  assumes "run_get_package_deps s fr = Some (s', r)"
  shows "store_le s s' \<and>
    (\<forall>ds. r = Inr ds \<longrightarrow> (\<exists>final. finish_deps s' final = Inr ds \<and> frame_names s fr \<subseteq> set final))"
proof -
  from assms have "case (s', r) of (s', r) \<Rightarrow> store_le s s' \<and>
    (\<forall>ds. r = Inr ds \<longrightarrow> (\<exists>final. finish_deps s' final = Inr ds \<and> frame_names s fr \<subseteq> set final))"
  proof (induction rule: run_induct)
    case (resolve_fails s pkg recursive e)
    then show ?case by (simp add: store_le_refl)
  next
    case (initial_fails s pkg recursive p e)
    then show ?case by (simp add: store_le_refl)
  next
    case (direct s pkg p loc)
    then show ?case by (auto simp: store_le_refl)
  next
    case (recursive s pkg p loc x)
    then show ?case by (auto split: prod.splits)
  next
    case (loop_end s loc i)
    then show ?case by (auto simp: store_le_refl)
  next
    case (loop_raise s loc i s1 e)
    then show ?case by simp
  next
    case (loop_step s loc i s1 ds s2 loc2 x)
    obtain s' r where x: "x = (s', r)" by (cases x)
    from loop_step.IH(1) have le1: "store_le s s1" by simp
    from store_le_extend_ret[OF loop_step.hyps(3)] have le2: "store_le s1 s2" .
    from loop_step.IH(2) x have le3: "store_le s2 s'" and
      fin: "\<forall>ds. r = Inr ds \<longrightarrow> (\<exists>final. finish_deps s' final = Inr ds \<and> set (read_ret s2 loc2) \<subseteq> set final)"
      by auto
    from read_ret_extend[OF le1 loop_step.hyps(3)] fin
    have "\<forall>ds. r = Inr ds \<longrightarrow> (\<exists>final. finish_deps s' final = Inr ds \<and> set (read_ret s loc) \<subseteq> set final)"
      by blast
    with le1 le2 le3 x show ?case by (auto intro: store_le_trans)
  qed
  then show ?thesis by simp
qed

lemma get_packages_Inr_D:
  "get_packages s xs = Inr as \<Longrightarrow> list_all2 (\<lambda>x a. map_of (s_packages s) x = Some a) xs as"
proof (induction xs arbitrary: as)
  case Nil
  then show ?case by simp
next
  case (Cons x xs)
  from Cons.prems obtain a bs where a: "map_of (s_packages s) x = Some a"
    and bs: "get_packages s xs = Inr bs" and as: "as = a # bs"
    by (auto split: sum.splits option.splits)
  from Cons.IH[OF bs] a as show ?case by simp
qed

lemma get_packages_Inr_I:
  "list_all2 (\<lambda>x a. map_of (s_packages s) x = Some a) xs as \<Longrightarrow> get_packages s xs = Inr as"
  by (induction rule: list_all2_induct) simp_all

lemma get_packages_Inr:
  "get_packages s xs = Inr as \<longleftrightarrow> list_all2 (\<lambda>x a. map_of (s_packages s) x = Some a) xs as"
  using get_packages_Inr_D get_packages_Inr_I by blast

lemma get_packages_names:
  assumes "get_packages s xs = Inr as" "store_ok s"
  shows "map (\<lambda>a. obj_name (heap s a)) as = xs"
proof -
  from assms(1) have "list_all2 (\<lambda>x a. map_of (s_packages s) x = Some a) xs as"
    by (simp add: get_packages_Inr)
  then show ?thesis
  proof (induction rule: list_all2_induct)
    case Nil
    then show ?case by simp
  next
    case (Cons x xs a as)
    from Cons.hyps(1) have "(x, a) \<in> set (s_packages s)" by (rule map_of_SomeD)
    with assms(2) have "obj_name (heap s a) = x"
      by (auto simp: store_ok_def list_all_iff)
    with Cons.IH show ?case by simp
  qed
qed



lemma finish_deps_sorted:
  assumes "finish_deps s ret = Inr ds" "store_ok s"
  shows "map (\<lambda>a. obj_name (heap s a)) ds = sorted_list_of_set (set ret)"
  using assms get_packages_names unfolding finish_deps_def by blast


lemma pkg_edges_Package:
  "map_of (s_packages s) n = Some a \<Longrightarrow> heap s a = Package i ds fs \<Longrightarrow>
     pkg_edges s `` {n} = set ds"
  by (auto simp: pkg_edges_def)

lemma walked_enter:
  assumes n: "n \<notin> set v" "map_of (s_packages s) n = Some a" "heap s a = Package i ds fs"
    and w: "walked s (set ds) (v @ [n], d @ [a]) st'"
  shows "walked s {n} (v, d) st'"
proof -
  from w obtain w1 where w1: "fst st' = (v @ [n]) @ w1"
    "snd st' = (d @ [a]) @ map (\<lambda>x. the (map_of (s_packages s) x)) w1"
    "\<forall>x \<in> set w1. map_of (s_packages s) x \<noteq> None"
    "set ds \<subseteq> set (v @ [n]) \<union> set w1"
    "set w1 \<subseteq> (pkg_edges s)\<^sup>* `` set ds"
    "\<forall>x \<in> set w1. pkg_edges s `` {x} \<subseteq> set (v @ [n]) \<union> set w1"
    unfolding walked_def by auto
  have e: "pkg_edges s `` {n} = set ds" using n(2,3) by (rule pkg_edges_Package)
  have sub: "(pkg_edges s)\<^sup>* `` set ds \<subseteq> (pkg_edges s)\<^sup>* `` {n}"
  proof
    fix y assume "y \<in> (pkg_edges s)\<^sup>* `` set ds"
    then obtain x where "x \<in> set ds" "(x, y) \<in> (pkg_edges s)\<^sup>*" by auto
    moreover from \<open>x \<in> set ds\<close> e have "(n, x) \<in> pkg_edges s" by auto
    ultimately show "y \<in> (pkg_edges s)\<^sup>* `` {n}" by (auto intro: converse_rtrancl_into_rtrancl)
  qed
  show ?thesis
    unfolding walked_def
  proof (rule exI[of _ "n # w1"], intro conjI)
    show "fst st' = fst (v, d) @ n # w1" using w1(1) by simp
    show "snd st' = snd (v, d) @ map (\<lambda>x. the (map_of (s_packages s) x)) (n # w1)"
      using w1(2) n(2) by simp
    show "\<forall>x\<in>set (n # w1). map_of (s_packages s) x \<noteq> None" using w1(3) n(2) by simp
    show "{n} \<subseteq> set (fst (v, d)) \<union> set (n # w1)" by simp
    show "set (n # w1) \<subseteq> (pkg_edges s)\<^sup>* `` {n}" using w1(5) sub by auto
    show "\<forall>x\<in>set (n # w1). pkg_edges s `` {x} \<subseteq> set (fst (v, d)) \<union> set (n # w1)"
      using w1(4,6) e by auto
  qed
qed

lemma walked_skip: "n \<in> set (fst st) \<Longrightarrow> walked s {n} st st"
  unfolding walked_def by (intro exI[of _ "[]"]) simp

lemma walked_nil: "walked s {} st st"
  unfolding walked_def by (intro exI[of _ "[]"]) simp

lemma walked_seq:
  assumes a: "walked s {n} st st1" and b: "walked s (set rest) st1 st2"
  shows "walked s (set (n # rest)) st st2"
proof -
  from a obtain w1 where w1: "fst st1 = fst st @ w1"
    "snd st1 = snd st @ map (\<lambda>x. the (map_of (s_packages s) x)) w1"
    "\<forall>x \<in> set w1. map_of (s_packages s) x \<noteq> None"
    "{n} \<subseteq> set (fst st) \<union> set w1"
    "set w1 \<subseteq> (pkg_edges s)\<^sup>* `` {n}"
    "\<forall>x \<in> set w1. pkg_edges s `` {x} \<subseteq> set (fst st) \<union> set w1"
    unfolding walked_def by auto
  from b obtain w2 where w2: "fst st2 = fst st1 @ w2"
    "snd st2 = snd st1 @ map (\<lambda>x. the (map_of (s_packages s) x)) w2"
    "\<forall>x \<in> set w2. map_of (s_packages s) x \<noteq> None"
    "set rest \<subseteq> set (fst st1) \<union> set w2"
    "set w2 \<subseteq> (pkg_edges s)\<^sup>* `` set rest"
    "\<forall>x \<in> set w2. pkg_edges s `` {x} \<subseteq> set (fst st1) \<union> set w2"
    unfolding walked_def by auto
  show ?thesis
    unfolding walked_def
  proof (rule exI[of _ "w1 @ w2"], intro conjI)
    show "fst st2 = fst st @ w1 @ w2" using w1(1) w2(1) by simp
    show "snd st2 = snd st @ map (\<lambda>x. the (map_of (s_packages s) x)) (w1 @ w2)"
      using w1(2) w2(2) by simp
    show "\<forall>x\<in>set (w1 @ w2). map_of (s_packages s) x \<noteq> None" using w1(3) w2(3) by auto
    show "set (n # rest) \<subseteq> set (fst st) \<union> set (w1 @ w2)" using w1(1,4) w2(4) by auto
    show "set (w1 @ w2) \<subseteq> (pkg_edges s)\<^sup>* `` set (n # rest)" using w1(5) w2(5) by auto
    show "\<forall>x\<in>set (w1 @ w2). pkg_edges s `` {x} \<subseteq> set (fst st) \<union> set (w1 @ w2)"
      using w1(1,6) w2(6) by auto
  qed
qed

lemma mp_walked:
  "mp_get_package_deps s n st = Inr st' \<Longrightarrow> walked s {n} st st'"
  "mp_for_deps s ns st = Inr st' \<Longrightarrow> walked s (set ns) st st'"
proof (induction s n st and s ns st arbitrary: st' and st'
    rule: mp_get_package_deps_mp_for_deps.induct)
  case (1 s package_name visited depslist)
  show ?case
  proof (cases "package_name \<in> set visited")
    case True
    with "1.prems" show ?thesis by (auto simp: mp_get_package_deps.simps intro: walked_skip)
  next
    case False
    with "1.prems" obtain a i ds fs where
      a: "map_of (s_packages s) package_name = Some a" and h: "heap s a = Package i ds fs"
      and r: "mp_for_deps s ds (visited @ [package_name], depslist @ [a]) = Inr st'"
      by (auto simp: mp_get_package_deps.simps split: sum.splits option.splits obj.splits)
    from a have "get_package s (Name package_name) = Inr a" by simp
    from "1.IH"[OF False this h r] have "walked s (set ds) (visited @ [package_name], depslist @ [a]) st'" .
    with False a h show ?thesis by (rule walked_enter)
  qed
next
  case (2 s st)
  then show ?case by (simp add: walked_nil)
next
  case (3 s p_name rest st)
  from "3.prems" obtain st1 where
    a: "mp_get_package_deps s p_name st = Inr st1" and b: "mp_for_deps s rest st1 = Inr st'"
    by (auto split: sum.splits)
  from "3.IH"(1)[OF a] "3.IH"(2)[OF a b] show ?case by (rule walked_seq)
qed

lemma walked_closure:
  assumes "walked s roots ([], []) (v, d)"
  shows "set d = {a. \<exists>n \<in> (pkg_edges s)\<^sup>* `` roots. map_of (s_packages s) n = Some a}"
    and "set v = (pkg_edges s)\<^sup>* `` roots"
proof -
  from assms obtain w where w: "v = w" "d = map (\<lambda>x. the (map_of (s_packages s) x)) w"
    "\<forall>x \<in> set w. map_of (s_packages s) x \<noteq> None"
    "roots \<subseteq> set w" "set w \<subseteq> (pkg_edges s)\<^sup>* `` roots"
    "\<forall>x \<in> set w. pkg_edges s `` {x} \<subseteq> set w"
    unfolding walked_def by auto
  have "y \<in> set w" if "(x, y) \<in> (pkg_edges s)\<^sup>*" "x \<in> set w" for x y
    using that by (induction rule: rtrancl_induct) (use w(6) in auto)
  with w(4) have "(pkg_edges s)\<^sup>* `` roots \<subseteq> set w" by auto
  with w(5) have eq: "set w = (pkg_edges s)\<^sup>* `` roots" by auto
  then show "set v = (pkg_edges s)\<^sup>* `` roots" using w(1) by simp
  show "set d = {a. \<exists>n \<in> (pkg_edges s)\<^sup>* `` roots. map_of (s_packages s) n = Some a}"
    unfolding w(2) eq[symmetric] using w(3) by (auto simp: image_iff) force
qed

lemma lmd_loop_closure:
  "lmd_loop s ps acc = Inr deps \<Longrightarrow> set deps = set acc \<union> closure_of s ps"
proof (induction ps arbitrary: acc)
  case Nil
  then show ?case by (simp add: closure_of_def)
next
  case (Cons p ps)
  from Cons.prems obtain v d where
    a: "mp_get_package_deps s p ([], []) = Inr (v, d)" and b: "lmd_loop s ps (acc @ d) = Inr deps"
    by (auto split: sum.splits)
  from walked_closure(1)[OF mp_walked(1)[OF a]]
  have "set d = closure_of s [p]" by (auto simp: closure_of_def)
  moreover have "closure_of s (p # ps) = closure_of s [p] \<union> closure_of s ps"
    by (auto simp: closure_of_def)
  ultimately show ?case using Cons.IH[OF b] by auto
qed

lemma list_metapackage_deps_closure:
  "list_metapackage_deps s (MetaPackage i ps d) = Inr ds \<Longrightarrow>
     set ds = closure_of s (map fst ps) \<and> distinct ds"
  by (auto split: sum.splits dest!: lmd_loop_closure)

text \<open>
  C2. With A depending on B and B on A, \<open>get_package_deps(A, recursive=True)\<close> does not
  return: each call enters the loop over the other package's \<open>deps\<close> and calls again, and
  nothing guards the recursion (the walk of \<open>_list_metapackage_deps\<close> has its \<open>visited\<close>
  list, this path has none).
\<close>

theorem C2_cycle_never_returns:
  "get_package_deps cyc_store (Name ''A'') True = None"
proof (rule ccontr)
  assume "get_package_deps cyc_store (Name ''A'') True \<noteq> None"
  then obtain x where ret: "run_get_package_deps cyc_store (Enter (Name ''A'') True) = Some x"
    by (auto simp: get_package_deps_def)
  define F where "F = {Enter (Name ''A'') True, Iterate (DepsOf 0) 0,
    Enter (Name ''B'') True, Iterate (DepsOf 1) 0}"
  have "s = cyc_store \<longrightarrow> fr \<notin> F" if "run_get_package_deps s fr = Some x" for s fr x
    using that
  proof (induction rule: run_induct)
    case (resolve_fails s pkg recursive e)
    then show ?case by (auto simp: F_def cyc_store_def initial_ret_def)
  next
    case (initial_fails s pkg recursive p e)
    then show ?case by (auto simp: F_def cyc_store_def initial_ret_def)
  next
    case (direct s pkg p loc)
    then show ?case by (auto simp: F_def)
  next
    case (recursive s pkg p loc x)
    then show ?case by (auto simp: F_def cyc_store_def initial_ret_def)
  next
    case (loop_end s loc i)
    then show ?case by (auto simp: F_def cyc_store_def initial_ret_def)
  next
    case (loop_raise s loc i s1 e)
    then show ?case by (auto simp: F_def cyc_store_def initial_ret_def)
  next
    case (loop_step s loc i s1 ds s2 loc2 x)
    then show ?case by (auto simp: F_def cyc_store_def initial_ret_def)
  qed
  from this[OF ret] show False by (simp add: F_def)
qed














lemma chain_store_ok: "store_ok chain_store"
  by (simp add: store_ok_def chain_store_def obj_name_def mkinfo_def)









text \<open>
  C4, as the code has it. The list is always sorted. For a MetaPackage it is the sorted,
  duplicate-free union of the files of the packages reachable from its constituents (or
  the exception of the walk). For a Package it is the package's own list sorted, with
  every duplicate of that list kept: it is duplicate-free exactly when the package's
  own list is.
\<close>

theorem C4_files_list:
  "map_of (s_packages s) n = Some p \<longrightarrow>
     (\<not> is_MetaPackage (heap s p) \<longrightarrow>
        get_package_files_list s n = Inr (sort (get_files_list (heap s p))))
     \<and> (\<forall>i ps d l. heap s p = MetaPackage i ps d \<and> get_package_files_list s n = Inr l \<longrightarrow>
          l = sorted_list_of_set
                (\<Union>a \<in> closure_of s (map fst ps). set (get_files_list (heap s a))))
     \<and> (\<forall>l. get_package_files_list s n = Inr l \<longrightarrow>
          sorted l \<and>
          (distinct l \<longleftrightarrow> is_MetaPackage (heap s p) \<or> distinct (get_files_list (heap s p))))"
proof (intro impI conjI allI)
  assume p: "map_of (s_packages s) n = Some p"
  {
    assume "\<not> is_MetaPackage (heap s p)"
    with p show "get_package_files_list s n = Inr (sort (get_files_list (heap s p)))"
      by (simp add: get_package_files_list_def)
  }
  {
    fix i ps d l
    assume h: "heap s p = MetaPackage i ps d \<and> get_package_files_list s n = Inr l"
    with p obtain cl where cl: "list_metapackage_deps s (MetaPackage i ps d) = Inr cl"
      and l: "l = sort (sorted_list_of_set (set (concat (map (\<lambda>p. get_files_list (heap s p)) cl))))"
      by (auto simp: get_package_files_list_def list_metapackage_files_def split: sum.splits)
    from list_metapackage_deps_closure[OF cl] have "set cl = closure_of s (map fst ps)" by simp
    then have "set (concat (map (\<lambda>p. get_files_list (heap s p)) cl))
        = (\<Union>a \<in> closure_of s (map fst ps). set (get_files_list (heap s a)))"
      by auto
    with l show "l = sorted_list_of_set
                (\<Union>a \<in> closure_of s (map fst ps). set (get_files_list (heap s a)))"
      by (simp add: sorted_sort_id)
  }
  {
    fix l
    assume l: "get_package_files_list s n = Inr l"
    show "sorted l"
      using l p by (auto simp: get_package_files_list_def split: sum.splits if_splits)
    show "distinct l \<longleftrightarrow> is_MetaPackage (heap s p) \<or> distinct (get_files_list (heap s p))"
    proof (cases "is_MetaPackage (heap s p)")
      case True
      with l p show ?thesis
        by (auto simp: get_package_files_list_def list_metapackage_files_def split: sum.splits)
    next
      case False
      with l p show ?thesis by (auto simp: get_package_files_list_def)
    qed
  }
qed

theorem C4_witness:
  "map_of (s_packages chain_store) ''core'' = Some 1
   \<and> get_package_files_list chain_store ''core'' = Inr [''lib/base.so'', ''lib/core.so'']
   \<and> map_of (s_packages chain_store) ''sdk'' = Some 3
   \<and> get_package_files_list chain_store ''sdk'' = Inr [''bin/app'', ''lib/base.so'', ''lib/core.so'']
   \<and> sorted [''bin/app'', ''lib/base.so'', ''lib/core.so'']
   \<and> distinct [''bin/app'', ''lib/base.so'', ''lib/core.so'']"
proof -
  have a: "map_of (s_packages chain_store) ''core'' = Some 1"
    "map_of (s_packages chain_store) ''sdk'' = Some 3"
    "\<not> is_MetaPackage (heap chain_store 1)" "is_MetaPackage (heap chain_store 3)"
    by (simp_all add: chain_store_def)
  have b: "get_package_files_list chain_store ''sdk'' = Inr [''bin/app'', ''lib/base.so'', ''lib/core.so'']"
    by code_simp
  have c: "sort (get_files_list (heap chain_store 1)) = [''lib/base.so'', ''lib/core.so'']"
    by code_simp
  from C4_files_list[of chain_store "''core''" 1] a(1,3)
  have "get_package_files_list chain_store ''core'' = Inr (sort (get_files_list (heap chain_store 1)))"
    by blast
  with c have d: "get_package_files_list chain_store ''core'' = Inr [''lib/base.so'', ''lib/core.so'']"
    by simp
  from C4_files_list[of chain_store "''sdk''" 3] a(2,4) b
  have "sorted [''bin/app'', ''lib/base.so'', ''lib/core.so'']
    \<and> distinct [''bin/app'', ''lib/base.so'', ''lib/core.so'']"
    by blast
  with a(1,2) b d show ?thesis by blast
qed

theorem C4_counterexample:
  "map_of (s_packages dup_store) ''dup'' = Some 0
   \<and> get_package_files_list dup_store ''dup'' = Inr [''bin/tool'', ''bin/tool'']
   \<and> \<not> distinct [''bin/tool'', ''bin/tool'']"
proof -
  have "get_package_files_list dup_store ''dup'' = Inr [''bin/tool'', ''bin/tool'']"
    by code_simp
  moreover have "map_of (s_packages dup_store) ''dup'' = Some 0"
    by (simp add: dup_store_def)
  ultimately show ?thesis by simp
qed

subsection \<open>\<open>get_package_deps\<close> returns on an acyclic store\<close>

lemma finite_pkg_edges: "finite (pkg_edges s)"
proof -
  have "pkg_edges s \<subseteq> fst ` set (s_packages s)
      \<times> (\<Union>a \<in> snd ` set (s_packages s). set (deps_of (heap s a)))"
  proof
    fix e assume "e \<in> pkg_edges s"
    then obtain n m a where e: "e = (n, m)" "map_of (s_packages s) n = Some a"
      "m \<in> set (deps_of (heap s a))"
      by (auto simp: pkg_edges_def)
    from e(2) have "(n, a) \<in> set (s_packages s)" by (rule map_of_SomeD)
    then have "n \<in> fst ` set (s_packages s)" "a \<in> snd ` set (s_packages s)"
      by (auto intro: rev_image_eqI)
    with e show "e \<in> fst ` set (s_packages s)
      \<times> (\<Union>a \<in> snd ` set (s_packages s). set (deps_of (heap s a)))"
      by auto
  qed
  moreover have "finite (fst ` set (s_packages s)
      \<times> (\<Union>a \<in> snd ` set (s_packages s). set (deps_of (heap s a))))"
    by simp
  ultimately show ?thesis by (rule finite_subset)
qed

lemma wf_deps:
  assumes "base_ok s0"
  shows "wf (((pkg_edges s0)\<^sup>+)\<inverse>)"
proof -
  from assms have "acyclic (pkg_edges s0)" by (simp add: base_ok_def)
  with finite_pkg_edges[of s0] have "wf ((pkg_edges s0)\<inverse>)"
    by (rule finite_acyclic_wf_converse)
  then have "wf (((pkg_edges s0)\<inverse>)\<^sup>+)" by (rule wf_trancl)
  then show ?thesis by (simp add: trancl_converse)
qed

lemma deps_irrefl:
  assumes "base_ok s0"
  shows "(n, n) \<notin> (pkg_edges s0)\<^sup>+"
  using assms by (auto simp: base_ok_def acyclic_def)

lemma edge_target:
  assumes "base_ok s0" "(n, m) \<in> pkg_edges s0"
  shows "\<exists>c. map_of (s_packages s0) m = Some c \<and> \<not> is_MetaPackage (heap s0 c)"
proof -
  from assms(2) obtain a where a: "map_of (s_packages s0) n = Some a"
    and m: "m \<in> set (deps_of (heap s0 a))"
    by (auto simp: pkg_edges_def)
  from a have "(n, a) \<in> set (s_packages s0)" by (rule map_of_SomeD)
  with assms(1) have "list_all (\<lambda>n. case map_of (s_packages s0) n of
                         None \<Rightarrow> False
                       | Some c \<Rightarrow> \<not> is_MetaPackage (heap s0 c))
          (referenced (heap s0 a))"
    by (auto simp: base_ok_def refs_ok_def list_all_iff)
  moreover from m have "m \<in> set (referenced (heap s0 a))" by (cases "heap s0 a") auto
  ultimately show ?thesis by (auto simp: list_all_iff split: option.splits)
qed

lemma trancl_target:
  assumes "base_ok s0" "(n, m) \<in> (pkg_edges s0)\<^sup>+"
  shows "\<exists>c. map_of (s_packages s0) m = Some c \<and> \<not> is_MetaPackage (heap s0 c)"
  using assms(2) by (cases rule: tranclE) (auto dest: edge_target[OF assms(1)])

lemma unique_key:
  assumes "store_ok s0" "map_of (s_packages s0) k = Some a" "map_of (s_packages s0) k' = Some a"
  shows "k = k'"
proof -
  from assms(2,3) have "(k, a) \<in> set (s_packages s0)" "(k', a) \<in> set (s_packages s0)"
    by (auto dest: map_of_SomeD)
  with assms(1) have "obj_name (heap s0 a) = k" "obj_name (heap s0 a) = k'"
    by (auto simp: store_ok_def list_all_iff)
  then show ?thesis by simp
qed

lemma get_packages_total:
  "(\<forall>x \<in> set xs. map_of (s_packages s) x \<noteq> None) \<Longrightarrow> \<exists>as. get_packages s xs = Inr as"
  by (induction xs) (auto split: option.splits)

lemma finish_deps_total:
  assumes "\<forall>x \<in> set ret. map_of (s_packages s) x \<noteq> None" "store_ok s"
  shows "\<exists>ds. finish_deps s ret = Inr ds \<and> (\<lambda>a. obj_name (heap s a)) ` set ds = set ret"
proof -
  from assms(1) have "\<forall>x \<in> set (sorted_list_of_set (set ret)). map_of (s_packages s) x \<noteq> None"
    by simp
  from get_packages_total[OF this] obtain ds where
    ds: "get_packages s (sorted_list_of_set (set ret)) = Inr ds" by blast
  from get_packages_names[OF ds assms(2)]
  have "map (\<lambda>a. obj_name (heap s a)) ds = sorted_list_of_set (set ret)" .
  then have "set (map (\<lambda>a. obj_name (heap s a)) ds) = set ret"
    by simp
  with ds show ?thesis by (auto simp: finish_deps_def)
qed

lemma inv_rel_facts:
  assumes "inv_rel s0 s"
  shows "s_packages s = s_packages s0" "obj_name (heap s a) = obj_name (heap s0 a)"
    "is_MetaPackage (heap s a) = is_MetaPackage (heap s0 a)"
    "store_ok s0 \<Longrightarrow> store_ok s"
    "map_of (s_packages s0) n = Some a \<Longrightarrow> m \<in> set (deps_of (heap s a))
       \<Longrightarrow> (n, m) \<in> (pkg_edges s0)\<^sup>+"
proof -
  from assms have le: "store_le s0 s" and sub: "pkg_edges s \<subseteq> (pkg_edges s0)\<^sup>+"
    by (simp_all add: inv_rel_def)
  show reg: "s_packages s = s_packages s0" using le by (rule store_le_facts(1))
  show "obj_name (heap s a) = obj_name (heap s0 a)" using le by (rule store_le_facts(2))
  show "is_MetaPackage (heap s a) = is_MetaPackage (heap s0 a)" using le by (rule store_le_facts(3))
  show "store_ok s0 \<Longrightarrow> store_ok s" using le by (rule store_ok_le)
  show "map_of (s_packages s0) n = Some a \<Longrightarrow> m \<in> set (deps_of (heap s a))
       \<Longrightarrow> (n, m) \<in> (pkg_edges s0)\<^sup>+"
    using sub reg by (auto simp: pkg_edges_def)
qed

lemma inv_rel_refl: "inv_rel s0 s0"
  by (auto simp: inv_rel_def store_le_refl)

lemma extend_ret_read:
  assumes "extend_ret s1 loc ys = (s2, loc2)"
    and "case loc of Fresh xs \<Rightarrow> True | DepsOf a \<Rightarrow> \<not> is_MetaPackage (heap s1 a)"
  shows "read_ret s2 loc2 = read_ret s1 loc @ ys"
proof (cases loc)
  case (Fresh xs)
  with assms show ?thesis by auto
next
  case (DepsOf a)
  with assms(2) obtain i ds fs where "heap s1 a = Package i ds fs"
    by (cases "heap s1 a") auto
  with assms(1) DepsOf show ?thesis by auto
qed

lemma extend_ret_heap:
  assumes "extend_ret s1 loc ys = (s2, loc2)" "loc \<noteq> DepsOf b"
  shows "heap s2 b = heap s1 b"
  using assms by (cases loc) (auto split: if_splits)

lemma extend_ret_loc:
  assumes "extend_ret s1 loc ys = (s2, loc2)"
  shows "loc_ok s0 D loc2 = loc_ok s0 D loc" "(loc2 = DepsOf b) = (loc = DepsOf b)"
  using assms by (cases loc; auto simp: loc_ok_def)+

lemma loop_returns:
  assumes base: "base_ok s0"
    and D1: "\<forall>m \<in> D. returns_ok s0 m"
    and D2: "\<forall>m \<in> D. \<forall>k. (m, k) \<in> (pkg_edges s0)\<^sup>+ \<longrightarrow> k \<in> D"
    and D3: "\<forall>m \<in> D. map_of (s_packages s0) m \<noteq> None"
    and loc: "loc_ok s0 D loc"
    and inv: "inv_rel s0 s"
    and sub: "set (read_ret s loc) \<subseteq> D"
  shows "\<exists>s' ds. run_get_package_deps s (Iterate loc i) = Some (s', Inr ds) \<and>
    inv_rel s0 s' \<and> (\<forall>d \<in> set ds. obj_name (heap s0 d) \<in> D) \<and>
    (\<forall>b. (\<forall>m \<in> D. b \<notin> touched s0 m) \<and> loc \<noteq> DepsOf b \<longrightarrow> heap s' b = heap s b)"
proof -
  define R where "R = ((pkg_edges s0)\<^sup>+)\<inverse>"
  have wfm: "wf (mult R)" unfolding R_def using wf_deps[OF base] by (rule wf_mult)
  from base have ok0: "store_ok s0" by (simp add: base_ok_def)
  show ?thesis
    using wfm loc inv sub
  proof (induction "mset (drop i (read_ret s loc))" arbitrary: s loc i rule: wf_induct_rule)
    case less
    define L where "L = read_ret s loc"
    note inv = less.prems(2) and loc = less.prems(1)
    from less.prems(3) have sub: "set L \<subseteq> D" by (simp add: L_def)
    have reg: "s_packages s = s_packages s0" using inv by (rule inv_rel_facts(1))
    have oks: "store_ok s" using inv ok0 by (rule inv_rel_facts(4))
    show ?case
    proof (cases "i < length L")
      case False
      then have run: "run_get_package_deps s (Iterate loc i) = Some (s, finish_deps s L)"
        by (subst run_Iterate) (simp add: L_def)
      from sub D3 reg have "\<forall>x \<in> set L. map_of (s_packages s) x \<noteq> None" by auto
      from finish_deps_total[OF this oks] obtain ds where
        ds: "finish_deps s L = Inr ds" "(\<lambda>a. obj_name (heap s a)) ` set ds = set L"
        by blast
      have "\<forall>d \<in> set ds. obj_name (heap s0 d) \<in> D"
      proof
        fix d assume "d \<in> set ds"
        with ds(2) have "obj_name (heap s d) \<in> set L" by blast
        with sub inv_rel_facts(2)[OF inv, of d] show "obj_name (heap s0 d) \<in> D" by auto
      qed
      with run ds(1) inv show ?thesis by auto
    next
      case True
      define m where "m = L ! i"
      from True sub have mD: "m \<in> D" by (auto simp: m_def)
      with D1 inv obtain s1 ds1 where
        run1: "run_get_package_deps s (Enter (Name m) True) = Some (s1, Inr ds1)"
        and inv1: "inv_rel s0 s1"
        and below: "\<forall>d \<in> set ds1. (m, obj_name (heap s0 d)) \<in> (pkg_edges s0)\<^sup>+"
        and frame1: "\<forall>b. b \<notin> touched s0 m \<longrightarrow> heap s1 b = heap s b"
        unfolding returns_ok_def by blast
      define names where "names = map (\<lambda>d. obj_name (heap s1 d)) ds1"
      have names_below: "\<forall>x \<in> set names. (m, x) \<in> (pkg_edges s0)\<^sup>+"
        using below inv_rel_facts(2)[OF inv1] by (auto simp: names_def)
      with mD D2 have names_D: "set names \<subseteq> D" by auto
      obtain s2 loc2 where ext: "extend_ret s1 loc names = (s2, loc2)"
        by (cases "extend_ret s1 loc names")
      have same: "read_ret s1 loc = L"
      proof (cases loc)
        case (Fresh xs)
        then show ?thesis by (simp add: L_def)
      next
        case (DepsOf a)
        with loc obtain n where n: "map_of (s_packages s0) n = Some a"
          and Dn: "D = (pkg_edges s0)\<^sup>+ `` {n}"
          by (auto simp: loc_ok_def)
        have "a \<notin> touched s0 m"
        proof
          assume "a \<in> touched s0 m"
          then obtain k where k: "(m, k) \<in> (pkg_edges s0)\<^sup>*" "map_of (s_packages s0) k = Some a"
            by (auto simp: touched_def)
          from unique_key[OF ok0 k(2) n] k(1) have "(m, n) \<in> (pkg_edges s0)\<^sup>*" by simp
          moreover from mD Dn have "(n, m) \<in> (pkg_edges s0)\<^sup>+" by simp
          ultimately have "(n, n) \<in> (pkg_edges s0)\<^sup>+" by (rule trancl_rtrancl_trancl[rotated -1]) 
          with deps_irrefl[OF base] show False by simp
        qed
        with frame1 have "heap s1 a = heap s a" by simp
        with DepsOf show ?thesis by (simp add: L_def)
      qed
      have kind: "case loc of Fresh xs \<Rightarrow> True | DepsOf a \<Rightarrow> \<not> is_MetaPackage (heap s1 a)"
        using loc inv_rel_facts(3)[OF inv1] by (auto simp: loc_ok_def split: retloc.splits)
      from extend_ret_read[OF ext kind] same have read2: "read_ret s2 loc2 = L @ names" by simp
      have loc2: "loc_ok s0 D loc2" using extend_ret_loc(1)[OF ext] loc by simp
      have le12: "store_le s1 s2" using ext by (rule store_le_extend_ret)
      have inv2: "inv_rel s0 s2"
        unfolding inv_rel_def
      proof
        from inv1 le12 show "store_le s0 s2" by (auto simp: inv_rel_def intro: store_le_trans)
        show "pkg_edges s2 \<subseteq> (pkg_edges s0)\<^sup>+"
        proof
          fix e assume "e \<in> pkg_edges s2"
          then obtain k x c where e: "e = (k, x)" "map_of (s_packages s2) k = Some c"
            "x \<in> set (deps_of (heap s2 c))"
            by (auto simp: pkg_edges_def)
          from le12 inv1 have reg2: "s_packages s2 = s_packages s0"
            by (simp add: store_le_facts(1) inv_rel_facts(1))
          show "e \<in> (pkg_edges s0)\<^sup>+"
          proof (cases "loc = DepsOf c")
            case False
            from extend_ret_heap[OF ext False] e(3) have "x \<in> set (deps_of (heap s1 c))" by simp
            with inv_rel_facts(5)[OF inv1, of k c x] e reg2 show ?thesis by simp
          next
            case True
            with loc obtain n where n: "map_of (s_packages s0) n = Some c"
              and Dn: "D = (pkg_edges s0)\<^sup>+ `` {n}"
              by (auto simp: loc_ok_def)
            from e(2) reg2 unique_key[OF ok0 _ n] have "k = n" by simp
            moreover from True extend_ret_loc(2)[OF ext, of c] have "loc2 = DepsOf c" by simp
            with read2 e(3) have "x \<in> set (L @ names)" by simp
            with sub names_D have "x \<in> D" by auto
            ultimately show ?thesis using Dn e(1) by simp
          qed
        qed
      qed
      have sub2: "set (read_ret s2 loc2) \<subseteq> D" using read2 sub names_D by simp
      have "drop i L = m # drop (Suc i) L" using True by (simp add: m_def Cons_nth_drop_Suc)
      then have old: "mset (drop i (read_ret s loc)) = add_mset m (mset (drop (Suc i) L))"
        by (simp add: L_def)
      from True have new: "mset (drop (Suc i) (read_ret s2 loc2)) = mset (drop (Suc i) L) + mset names"
        by (simp add: read2)
      have "\<forall>b. b \<in># mset names \<longrightarrow> (b, m) \<in> R"
        using names_below by (simp add: R_def)
      with old new have "\<exists>a M0 K. mset (drop i (read_ret s loc)) = add_mset a M0 \<and>
          mset (drop (Suc i) (read_ret s2 loc2)) = M0 + K \<and> (\<forall>b. b \<in># K \<longrightarrow> (b, a) \<in> R)"
        by blast
      then have "(mset (drop (Suc i) (read_ret s2 loc2)), mset (drop i (read_ret s loc))) \<in> mult1 R"
        unfolding mult1_def by simp
      then have dec: "(mset (drop (Suc i) (read_ret s2 loc2)), mset (drop i (read_ret s loc))) \<in> mult R"
        unfolding mult_def by (rule r_into_trancl)
      from less.hyps[OF dec loc2 inv2 sub2] obtain s' ds where
        run2: "run_get_package_deps s2 (Iterate loc2 (Suc i)) = Some (s', Inr ds)"
        and inv': "inv_rel s0 s'" and dsD: "\<forall>d \<in> set ds. obj_name (heap s0 d) \<in> D"
        and frame2: "\<forall>b. (\<forall>m \<in> D. b \<notin> touched s0 m) \<and> loc2 \<noteq> DepsOf b \<longrightarrow> heap s' b = heap s2 b"
        by blast
      from True run1 ext run2 have run: "run_get_package_deps s (Iterate loc i) = Some (s', Inr ds)"
        by (subst run_Iterate) (simp add: L_def m_def names_def)
      have "heap s' b = heap s b" if b: "(\<forall>m \<in> D. b \<notin> touched s0 m) \<and> loc \<noteq> DepsOf b" for b
      proof -
        from b mD frame1 have "heap s1 b = heap s b" by simp
        moreover from b extend_ret_heap[OF ext] have "heap s2 b = heap s1 b" by simp
        moreover from b extend_ret_loc(2)[OF ext, of b] frame2 have "heap s' b = heap s2 b" by simp
        ultimately show ?thesis by simp
      qed
      with run inv' dsD show ?thesis by blast
    qed
  qed
qed

lemma package_returns:
  assumes base: "base_ok s0"
  shows "map_of (s_packages s0) n = Some a \<Longrightarrow> \<not> is_MetaPackage (heap s0 a) \<Longrightarrow> returns_ok s0 n"
  using wf_deps[OF base]
proof (induction n arbitrary: a rule: wf_induct_rule)
  case (less n)
  define D where "D = (pkg_edges s0)\<^sup>+ `` {n}"
  have D1: "\<forall>m \<in> D. returns_ok s0 m"
  proof
    fix m assume "m \<in> D"
    then have nm: "(n, m) \<in> (pkg_edges s0)\<^sup>+" by (simp add: D_def)
    from trancl_target[OF base nm] obtain c where
      "map_of (s_packages s0) m = Some c" "\<not> is_MetaPackage (heap s0 c)" by blast
    with less.IH[of m c] nm show "returns_ok s0 m" by simp
  qed
  have D2: "\<forall>m \<in> D. \<forall>k. (m, k) \<in> (pkg_edges s0)\<^sup>+ \<longrightarrow> k \<in> D"
    unfolding D_def by (auto intro: trancl_trans)
  have D3: "\<forall>m \<in> D. map_of (s_packages s0) m \<noteq> None"
    unfolding D_def using trancl_target[OF base] by auto
  have loc: "loc_ok s0 D (DepsOf a)"
    unfolding loc_ok_def using less.prems by (auto simp: D_def)
  show ?case
    unfolding returns_ok_def
  proof (intro allI impI)
    fix s assume inv: "inv_rel s0 s"
    have reg: "s_packages s = s_packages s0" using inv by (rule inv_rel_facts(1))
    have sub: "set (read_ret s (DepsOf a)) \<subseteq> D"
      using inv_rel_facts(5)[OF inv less.prems(1)] by (auto simp: D_def)
    from loop_returns[OF base D1 D2 D3 loc inv sub, of 0] obtain s' ds where
      run: "run_get_package_deps s (Iterate (DepsOf a) 0) = Some (s', Inr ds)"
      and inv': "inv_rel s0 s'" and dsD: "\<forall>d \<in> set ds. obj_name (heap s0 d) \<in> D"
      and frame: "\<forall>b. (\<forall>m \<in> D. b \<notin> touched s0 m) \<and> DepsOf a \<noteq> DepsOf b \<longrightarrow> heap s' b = heap s b"
      by blast
    have r: "resolve_pkg s (Name n) = Inr a" using less.prems(1) reg by simp
    have i: "initial_ret s a = Inr (DepsOf a)"
      using less.prems(2) inv_rel_facts(3)[OF inv, of a] by (simp add: initial_ret_def)
    from r i run have run': "run_get_package_deps s (Enter (Name n) True) = Some (s', Inr ds)"
      by (subst run_Enter) simp
    have fr: "heap s' b = heap s b" if b: "b \<notin> touched s0 n" for b
    proof -
      have "a \<in> touched s0 n" using less.prems(1) by (auto simp: touched_def)
      with b have "DepsOf a \<noteq> DepsOf b" by auto
      moreover have "b \<notin> touched s0 m" if "m \<in> D" for m
      proof
        assume "b \<in> touched s0 m"
        then obtain k where mk: "(m, k) \<in> (pkg_edges s0)\<^sup>*"
          and kb: "map_of (s_packages s0) k = Some b"
          by (auto simp: touched_def)
        from \<open>m \<in> D\<close> have "(n, m) \<in> (pkg_edges s0)\<^sup>*" by (simp add: D_def)
        from this mk have "(n, k) \<in> (pkg_edges s0)\<^sup>*" by (rule rtrancl_trans)
        with kb have "b \<in> touched s0 n" unfolding touched_def by blast
        with b show False by simp
      qed
      ultimately show ?thesis using frame by blast
    qed
    from run' inv' dsD fr
    show "\<exists>s' ds. run_get_package_deps s (Enter (Name n) True) = Some (s', Inr ds) \<and>
           inv_rel s0 s' \<and>
           (\<forall>d \<in> set ds. (n, obj_name (heap s0 d)) \<in> (pkg_edges s0)\<^sup>+) \<and>
           (\<forall>b. b \<notin> touched s0 n \<longrightarrow> heap s' b = heap s b)"
      by (auto simp: D_def)
  qed
qed

lemma mp_total:
  "(\<forall>k. (n, k) \<in> (pkg_edges s)\<^sup>* \<longrightarrow>
      (\<exists>c. map_of (s_packages s) k = Some c \<and> \<not> is_MetaPackage (heap s c)))
     \<Longrightarrow> \<exists>st'. mp_get_package_deps s n st = Inr st'"
  "(\<forall>x \<in> set ns. \<forall>k. (x, k) \<in> (pkg_edges s)\<^sup>* \<longrightarrow>
      (\<exists>c. map_of (s_packages s) k = Some c \<and> \<not> is_MetaPackage (heap s c)))
     \<Longrightarrow> \<exists>st'. mp_for_deps s ns st = Inr st'"
proof (induction s n st and s ns st rule: mp_get_package_deps_mp_for_deps.induct)
  case (1 s package_name visited depslist)
  show ?case
  proof (cases "package_name \<in> set visited")
    case True
    then show ?thesis by (simp add: mp_get_package_deps.simps)
  next
    case False
    from "1.prems" obtain c where c: "map_of (s_packages s) package_name = Some c"
      "\<not> is_MetaPackage (heap s c)" by blast
    then obtain i ds fs where h: "heap s c = Package i ds fs" by (cases "heap s c") auto
    from c have g: "get_package s (Name package_name) = Inr c" by simp
    have "\<forall>x \<in> set ds. \<forall>k. (x, k) \<in> (pkg_edges s)\<^sup>* \<longrightarrow>
      (\<exists>c. map_of (s_packages s) k = Some c \<and> \<not> is_MetaPackage (heap s c))"
    proof (intro ballI allI impI)
      fix x k assume x: "x \<in> set ds" and k: "(x, k) \<in> (pkg_edges s)\<^sup>*"
      from x c h have "(package_name, x) \<in> pkg_edges s" by (auto simp: pkg_edges_def)
      from this k have "(package_name, k) \<in> (pkg_edges s)\<^sup>*" by (rule converse_rtrancl_into_rtrancl)
      with "1.prems" show "\<exists>c. map_of (s_packages s) k = Some c \<and> \<not> is_MetaPackage (heap s c)"
        by blast
    qed
    from "1.IH"[OF False g h this] obtain st' where
      "mp_for_deps s ds (visited @ [package_name], depslist @ [c]) = Inr st'" by blast
    with False g h show ?thesis by (simp add: mp_get_package_deps.simps)
  qed
next
  case (2 s st)
  then show ?case by simp
next
  case (3 s p_name rest st)
  from "3.prems" "3.IH"(1) obtain st1 where a: "mp_get_package_deps s p_name st = Inr st1"
    by auto
  from "3.prems" "3.IH"(2)[OF a] obtain st' where "mp_for_deps s rest st1 = Inr st'" by auto
  with a show ?case by simp
qed

lemma lmd_loop_total:
  "(\<forall>x \<in> set ps. \<forall>k. (x, k) \<in> (pkg_edges s)\<^sup>* \<longrightarrow>
      (\<exists>c. map_of (s_packages s) k = Some c \<and> \<not> is_MetaPackage (heap s c)))
     \<Longrightarrow> \<exists>deps. lmd_loop s ps acc = Inr deps"
proof (induction ps arbitrary: acc)
  case Nil
  then show ?case by simp
next
  case (Cons p ps)
  from Cons.prems mp_total(1)[of p s "([], [])"] obtain v d where
    a: "mp_get_package_deps s p ([], []) = Inr (v, d)" by auto
  from Cons.prems Cons.IH[of "acc @ d"] obtain deps where "lmd_loop s ps (acc @ d) = Inr deps"
    by auto
  with a show ?case by simp
qed

lemma constituents_ok:
  assumes base: "base_ok s" and m: "map_of (s_packages s) n = Some p"
    and h: "heap s p = MetaPackage i ps d"
  shows "\<forall>x \<in> set (map fst ps). \<forall>k. (x, k) \<in> (pkg_edges s)\<^sup>* \<longrightarrow>
      (\<exists>c. map_of (s_packages s) k = Some c \<and> \<not> is_MetaPackage (heap s c))"
proof (intro ballI allI impI)
  fix x k assume x: "x \<in> set (map fst ps)" and k: "(x, k) \<in> (pkg_edges s)\<^sup>*"
  from m have "(n, p) \<in> set (s_packages s)" by (rule map_of_SomeD)
  with base h x have xr: "\<exists>c. map_of (s_packages s) x = Some c \<and> \<not> is_MetaPackage (heap s c)"
    by (auto simp: base_ok_def refs_ok_def list_all_iff split: option.splits) force
  from k show "\<exists>c. map_of (s_packages s) k = Some c \<and> \<not> is_MetaPackage (heap s c)"
  proof (cases rule: rtranclE)
    case base
    with xr show ?thesis by simp
  next
    case (step y)
    then have "(y, k) \<in> pkg_edges s" by simp
    from edge_target[OF \<open>base_ok s\<close> this] show ?thesis .
  qed
qed

lemma returned_sorted:
  assumes "run_get_package_deps s fr = Some (s', Inr ds)" "store_ok s"
  shows "sorted (map (\<lambda>d. obj_name (heap s' d)) ds) \<and> distinct (map (\<lambda>d. obj_name (heap s' d)) ds)"
proof -
  from run_result[OF assms(1)] obtain final where
    le: "store_le s s'" and f: "finish_deps s' final = Inr ds" by blast
  from le assms(2) have "store_ok s'" by (rule store_ok_le)
  from finish_deps_sorted[OF f this] show ?thesis by simp
qed

lemma metapackage_initial:
  assumes base: "base_ok s" and m: "map_of (s_packages s) n = Some p"
    and h: "heap s p = MetaPackage i ps d"
  shows "\<exists>cl. list_metapackage_deps s (heap s p) = Inr cl \<and>
    (\<forall>a \<in> set cl. \<exists>c. map_of (s_packages s) (obj_name (heap s a)) = Some c \<and>
        \<not> is_MetaPackage (heap s c))"
proof -
  from lmd_loop_total[OF constituents_ok[OF base m h], of "[]"] obtain deps where
    l: "lmd_loop s (map fst ps) [] = Inr deps" by blast
  then have cl: "list_metapackage_deps s (heap s p) = Inr (remdups deps)" using h by simp
  from list_metapackage_deps_closure[OF cl[unfolded h]]
  have set: "set (remdups deps) = closure_of s (map fst ps)" by simp
  from base have ok: "store_ok s" by (simp add: base_ok_def)
  have "\<exists>c. map_of (s_packages s) (obj_name (heap s a)) = Some c \<and> \<not> is_MetaPackage (heap s c)"
    if "a \<in> set (remdups deps)" for a
  proof -
    from that set obtain c k where c: "c \<in> set (map fst ps)" and k: "(c, k) \<in> (pkg_edges s)\<^sup>*"
      and a: "map_of (s_packages s) k = Some a"
      unfolding closure_of_def by blast
    from a have "(k, a) \<in> set (s_packages s)" by (rule map_of_SomeD)
    with ok have "obj_name (heap s a) = k" by (auto simp: store_ok_def list_all_iff)
    with constituents_ok[OF base m h] c k show ?thesis by blast
  qed
  with cl show ?thesis by blast
qed

lemma deps_returns:
  assumes base: "base_ok s" and r: "resolve_pkg s pkg = Inr p"
    and m: "map_of (s_packages s) n = Some p"
  shows "\<exists>s' ds. run_get_package_deps s (Enter pkg recursive) = Some (s', Inr ds)"
proof -
  from base have ok: "store_ok s" by (simp add: base_ok_def)
  define D where "D = {m. \<exists>c. map_of (s_packages s) m = Some c \<and> \<not> is_MetaPackage (heap s c)}"
  have D1: "\<forall>m \<in> D. returns_ok s m" using package_returns[OF base] by (auto simp: D_def)
  have D2: "\<forall>m \<in> D. \<forall>k. (m, k) \<in> (pkg_edges s)\<^sup>+ \<longrightarrow> k \<in> D"
    using trancl_target[OF base] by (auto simp: D_def)
  have D3: "\<forall>m \<in> D. map_of (s_packages s) m \<noteq> None" by (auto simp: D_def)
  show ?thesis
  proof (cases "heap s p")
    case (Package i ds fs)
    then have i: "initial_ret s p = Inr (DepsOf p)" by (simp add: initial_ret_def)
    have sub: "set (read_ret s (DepsOf p)) \<subseteq> D"
    proof
      fix x assume "x \<in> set (read_ret s (DepsOf p))"
      with m have "(n, x) \<in> pkg_edges s" by (auto simp: pkg_edges_def)
      from edge_target[OF base this] show "x \<in> D" by (simp add: D_def)
    qed
    show ?thesis
    proof (cases recursive)
      case True
      from Package have "\<not> is_MetaPackage (heap s p)" by simp
      from package_returns[OF base m this] inv_rel_refl[of s] obtain s' ds where
        "run_get_package_deps s (Enter (Name n) True) = Some (s', Inr ds)"
        unfolding returns_ok_def by blast
      moreover have "resolve_pkg s (Name n) = Inr p" using m by simp
      ultimately show ?thesis using r True by (simp add: run_Enter)
    next
      case False
      from sub D3 have "\<forall>x \<in> set (read_ret s (DepsOf p)). map_of (s_packages s) x \<noteq> None"
        by auto
      from finish_deps_total[OF this ok] obtain ds where
        "finish_deps s (read_ret s (DepsOf p)) = Inr ds" by blast
      with r i False show ?thesis by (simp add: run_Enter)
    qed
  next
    case (MetaPackage i ps d)
    from metapackage_initial[OF base m MetaPackage] obtain cl where
      cl: "list_metapackage_deps s (heap s p) = Inr cl"
      and reg: "\<forall>a \<in> set cl. \<exists>c. map_of (s_packages s) (obj_name (heap s a)) = Some c \<and>
        \<not> is_MetaPackage (heap s c)" by blast
    define names where "names = map (\<lambda>d. obj_name (heap s d)) cl"
    from cl MetaPackage have i: "initial_ret s p = Inr (Fresh names)"
      by (simp add: initial_ret_def names_def)
    have sub: "set (read_ret s (Fresh names)) \<subseteq> D" using reg by (auto simp: names_def D_def)
    show ?thesis
    proof (cases recursive)
      case True
      have loc: "loc_ok s D (Fresh names)" by (simp add: loc_ok_def)
      from loop_returns[OF base D1 D2 D3 loc inv_rel_refl sub, of 0] obtain s' ds where
        "run_get_package_deps s (Iterate (Fresh names) 0) = Some (s', Inr ds)" by blast
      with r i True show ?thesis by (simp add: run_Enter)
    next
      case False
      from sub D3 have "\<forall>x \<in> set (read_ret s (Fresh names)). map_of (s_packages s) x \<noteq> None"
        by auto
      from finish_deps_total[OF this ok] obtain ds where
        "finish_deps s (read_ret s (Fresh names)) = Inr ds" by blast
      with r i False show ?thesis by (simp add: run_Enter)
    qed
  qed
qed

text \<open>
  C3. In a store whose keys are the names of the objects, where every name that a package
  or a MetaPackage refers to is registered and denotes a plain package, and where the
  dependency graph is acyclic, \<open>get_package_deps\<close> returns a list for every registered
  package or MetaPackage, in the recursive and in the direct form, and the names of the
  packages of that list are in ascending order and pairwise different.
\<close>

theorem C3_sorted_distinct:
  assumes "base_ok s" "resolve_pkg s pkg = Inr p" "map_of (s_packages s) n = Some p"
  shows "\<exists>s' ds. get_package_deps s pkg recursive = Some (s', Inr ds) \<and>
    sorted (map (\<lambda>d. obj_name (heap s' d)) ds) \<and>
    distinct (map (\<lambda>d. obj_name (heap s' d)) ds)"
proof -
  from deps_returns[OF assms] obtain s' ds where
    run: "run_get_package_deps s (Enter pkg recursive) = Some (s', Inr ds)" by blast
  from assms(1) have "store_ok s" by (simp add: base_ok_def)
  from returned_sorted[OF run this] run show ?thesis
    unfolding get_package_deps_def by blast
qed

lemma chain_edges: "pkg_edges chain_store = {(''core'', ''base''), (''app'', ''core'')}"
  unfolding pkg_edges_def chain_store_def
  by (auto split: if_splits)

lemma chain_acyclic: "acyclic (pkg_edges chain_store)"
  unfolding chain_edges
  by (rule acyclicI_order[where f = "\<lambda>x. if x = ''app'' then 2::nat else if x = ''core'' then 1 else 0"])
    auto

lemma chain_base_ok: "base_ok chain_store"
proof -
  have "refs_ok chain_store" by (simp add: refs_ok_def chain_store_def)
  with chain_store_ok chain_acyclic show ?thesis by (simp add: base_ok_def)
qed

theorem C3_witness:
  "base_ok chain_store \<and> resolve_pkg chain_store (Name ''sdk'') = Inr 3
   \<and> map_of (s_packages chain_store) ''sdk'' = Some 3
   \<and> (\<exists>s' ds. get_package_deps chain_store (Name ''sdk'') True = Some (s', Inr ds) \<and>
    sorted (map (\<lambda>d. obj_name (heap s' d)) ds) \<and>
    distinct (map (\<lambda>d. obj_name (heap s' d)) ds))"
proof -
  have r: "resolve_pkg chain_store (Name ''sdk'') = Inr 3" by (simp add: chain_store_def)
  have m: "map_of (s_packages chain_store) ''sdk'' = Some 3" by (simp add: chain_store_def)
  from C3_sorted_distinct[OF chain_base_ok r m, of True] chain_base_ok r m show ?thesis by blast
qed

lemma nat_of_str_snoc: "nat_of_str (s @ [c]) = 10 * nat_of_str s + (of_char c - 48)"
  by (simp add: nat_of_str_def)

lemma nat_of_str_nat: "nat_of_str (str_nat n) = n"
proof (induction n rule: str_nat.induct)
  case (1 n)
  show ?case
  proof (cases "n < 10")
    case True
    then show ?thesis by (subst str_nat.simps) (simp add: nat_of_str_def)
  next
    case False
    have "n mod 10 < 10" by simp
    then have "(48 + n mod 10) mod 256 = 48 + n mod 10" by simp
    with False "1.IH" show ?thesis
      by (subst str_nat.simps) (simp add: nat_of_str_snoc)
  qed
qed

lemma str_nat_inj: "str_nat m = str_nat n \<Longrightarrow> m = n"
  by (metis nat_of_str_nat)

lemma with_suffix_inj: "with_suffix t j = with_suffix t k \<Longrightarrow> j = k"
  by (auto simp: with_suffix_def split: if_splits dest: str_nat_inj)

lemma format_path_id_eq:
  "format_path_id b path rd =
     (b\<lparr>ids := (ids b)(token (path, rd) \<mapsto> next_count (ids b) (token (path, rd)))\<rparr>,
      with_suffix (token (path, rd)) (next_count (ids b) (token (path, rd))))"
  by (simp add: format_path_id_def token_def next_count_def with_suffix_def Let_def)

lemma format_path_ids_length: "length (format_path_ids b cs) = length cs"
  by (induction cs arbitrary: b) (auto split: prod.splits)

lemma format_path_ids_nth:
  "j < length cs \<Longrightarrow>
     format_path_ids b cs ! j =
       with_suffix (token (cs ! j))
         (next_count (ids b) (token (cs ! j))
            + length (filter (\<lambda>c. token c = token (cs ! j)) (take j cs)))"
proof (induction cs arbitrary: b j)
  case Nil
  then show ?case by simp
next
  case (Cons c cs)
  obtain b' i where f: "format_path_id b (fst c) (snd c) = (b', i)"
    by (cases "format_path_id b (fst c) (snd c)")
  with format_path_id_eq[of b "fst c" "snd c"]
  have b': "ids b' = (ids b)(token c \<mapsto> next_count (ids b) (token c))"
    and i: "i = with_suffix (token c) (next_count (ids b) (token c))"
    by auto
  show ?case
  proof (cases j)
    case 0
    with f i show ?thesis by simp
  next
    case (Suc k)
    with Cons.prems have k: "k < length cs" by simp
    have "next_count (ids b') t = (if t = token c then next_count (ids b) t + 1 else next_count (ids b) t)"
      for t by (simp add: b' next_count_def)
    with Cons.IH[OF k, of b'] Suc f show ?thesis by simp
  qed
qed

text \<open>
  C7, as the code has it. On a builder with no identifier issued yet, a call whose token
  has been computed by \<open>k\<close> earlier calls returns the token itself when \<open>k = 0\<close> and the
  token with the suffix \<open>_k\<close> otherwise; two calls with the same token return different
  identifiers. The token is computed from the last component of the path only.
\<close>

theorem C7_collision_suffixes:
  "ids b = Map.empty \<and> j < length cs \<longrightarrow>
     format_path_ids b cs ! j =
       with_suffix (token (cs ! j)) (length (filter (\<lambda>c. token c = token (cs ! j)) (take j cs)))
     \<and> (\<forall>i. i < j \<and> token (cs ! i) = token (cs ! j) \<longrightarrow>
          format_path_ids b cs ! i \<noteq> format_path_ids b cs ! j)"
proof (intro impI conjI allI)
  assume h: "ids b = Map.empty \<and> j < length cs"
  then have nc: "next_count (ids b) t = 0" for t by (simp add: next_count_def)
  from h format_path_ids_nth[of j cs b] nc
  show eq: "format_path_ids b cs ! j =
       with_suffix (token (cs ! j)) (length (filter (\<lambda>c. token c = token (cs ! j)) (take j cs)))"
    by simp
  fix i assume i: "i < j \<and> token (cs ! i) = token (cs ! j)"
  with h have il: "i < length cs" by simp
  from format_path_ids_nth[OF il, of b] nc i
  have eqi: "format_path_ids b cs ! i =
       with_suffix (token (cs ! j)) (length (filter (\<lambda>c. token c = token (cs ! j)) (take i cs)))"
    by simp
  define rest where "rest = drop (Suc i) (take j cs)"
  have "take (Suc i) (take j cs) @ rest = take j cs"
    unfolding rest_def by (rule append_take_drop_id)
  moreover from i have "take (Suc i) (take j cs) = take (Suc i) cs"
    by (simp add: min_def)
  moreover from il have "take (Suc i) cs = take i cs @ [cs ! i]"
    by (rule take_Suc_conv_app_nth)
  ultimately have split: "take j cs = take i cs @ [cs ! i] @ rest"
    by simp
  have "length (filter (\<lambda>c. token c = token (cs ! j)) (take i cs))
      < length (filter (\<lambda>c. token c = token (cs ! j)) (take i cs @ [cs ! i] @ rest))"
    using i by simp
  then have "length (filter (\<lambda>c. token c = token (cs ! j)) (take i cs))
      < length (filter (\<lambda>c. token c = token (cs ! j)) (take j cs))"
    by (simp only: split)
  with eq eqi show "format_path_ids b cs ! i \<noteq> format_path_ids b cs ! j"
    by (auto dest: with_suffix_inj)
qed

theorem C7_witness:
  "ids wb0 = Map.empty \<and> (1::nat) < length [(''a/b'', False), (''c/b'', False)]
   \<and> format_path_ids wb0 [(''a/b'', False), (''c/b'', False)] ! 1 = ''_b_1''
   \<and> format_path_ids wb0 [(''a/b'', False), (''c/b'', False)] ! 0 \<noteq> ''_b_1''"
proof -
  have h: "ids wb0 = Map.empty \<and> (1::nat) < length [(''a/b'', False), (''c/b'', False)]"
    by (simp add: wb0_def)
  have t: "token (''a/b'', False) = ''_b''" "token (''c/b'', False) = ''_b''"
    by code_simp+
  have s: "with_suffix ''_b'' 1 = ''_b_1''" by code_simp
  from C7_collision_suffixes[of wb0 1 "[(''a/b'', False), (''c/b'', False)]"] h
  have a: "format_path_ids wb0 [(''a/b'', False), (''c/b'', False)] ! 1 =
       with_suffix (token ([(''a/b'', False), (''c/b'', False)] ! 1))
         (length (filter (\<lambda>c. token c = token ([(''a/b'', False), (''c/b'', False)] ! 1))
           (take 1 [(''a/b'', False), (''c/b'', False)])))"
    and b: "\<forall>i. i < 1 \<and> token ([(''a/b'', False), (''c/b'', False)] ! i)
          = token ([(''a/b'', False), (''c/b'', False)] ! 1) \<longrightarrow>
          format_path_ids wb0 [(''a/b'', False), (''c/b'', False)] ! i
            \<noteq> format_path_ids wb0 [(''a/b'', False), (''c/b'', False)] ! 1"
    by blast+
  from a t s have a': "format_path_ids wb0 [(''a/b'', False), (''c/b'', False)] ! 1 = ''_b_1''"
    by simp
  from b[rule_format, of 0] t a'
  have "format_path_ids wb0 [(''a/b'', False), (''c/b'', False)] ! 0 \<noteq> ''_b_1''"
    by simp
  with h a' show ?thesis by blast
qed

theorem C7_counterexample:
  "token (''a/b'', False) = ''_b'' \<and> token (''a_b'', False) = ''_a__b''
   \<and> format_path_ids wb0 [(''a/b'', False), (''a_b'', False)] = [''_b'', ''_a__b'']"
  by code_simp

text \<open>
  C8, as the code has it. After a call of \<open>fill\<close> that returned normally the builder is
  filled, and any further call returns at once with the state unchanged and raises
  nothing, whatever \<open>_fill\<close> is. A call that raised has not set \<open>filled\<close>: it ran \<open>_fill\<close>
  and left the state that \<open>_fill\<close> left.
\<close>

theorem C8_fill_once:
  "(fill f b = Some (Ok b1) \<longrightarrow> filled b1 \<and> fill f b1 = Some (Ok b1))
   \<and> (fill f b = Some (Raise e b1) \<longrightarrow> \<not> filled b \<and> f b = Some (Raise e b1))"
  by (auto simp: fill_def split: if_splits option.splits res.splits)

theorem C8_witness:
  "(\<exists>b1. fill msi_fill chain_msi = Some (Ok b1) \<and> filled b1 \<and> fill msi_fill b1 = Some (Ok b1))
   \<and> (\<exists>e b1. fill msi_fill ghost_msi = Some (Raise e b1) \<and> \<not> filled ghost_msi)"
proof -
  have "map_option is_Ok (fill msi_fill chain_msi) = Some True" by code_simp
  then obtain b1 where a: "fill msi_fill chain_msi = Some (Ok b1)"
    by (cases "fill msi_fill chain_msi") (auto elim: is_Ok.elims)
  have "map_option is_Ok (fill msi_fill ghost_msi) = Some False" by code_simp
  then obtain e b2 where b: "fill msi_fill ghost_msi = Some (Raise e b2)"
    by (cases "fill msi_fill ghost_msi") (auto elim: is_Ok.elims)
  from C8_fill_once[of msi_fill chain_msi b1] a
  have "filled b1 \<and> fill msi_fill b1 = Some (Ok b1)" by blast
  moreover from C8_fill_once[of msi_fill ghost_msi b2 e] b
  have "\<not> filled ghost_msi" by blast
  ultimately show ?thesis using a b by blast
qed

text \<open>
  The metapackage of \<open>ghost_msi\<close> names a package that the store does not hold. The first
  \<open>fill\<close> raises PackageNotFoundError after five elements have been added to the two of the
  template; the second \<open>fill\<close> runs \<open>_fill\<close> again, adds five more and raises again.
\<close>

theorem C8_counterexample:
  "map_option (\<lambda>r. (is_Ok r, length (nodes (state_of r)))) (fill msi_fill ghost_msi)
     = Some (False, 7)
   \<and> map_option (\<lambda>r. (is_Ok r, length (nodes (state_of r))))
       (Option.bind (fill msi_fill ghost_msi) (\<lambda>r. fill msi_fill (state_of r)))
     = Some (False, 12)"
  by code_simp



lemma extend_required_all:
  "extend_required s req acc = Inr rp \<Longrightarrow> p \<in> set req \<Longrightarrow>
     \<exists>ds. get_package_deps_direct s (Instance p) = Inr ds"
proof (induction req arbitrary: acc)
  case Nil
  then show ?case by simp
next
  case (Cons q req)
  then show ?case by (auto split: sum.splits)
qed






lemma load_valid_no_warning:
  "load_package_from_file d = (Some p, ws) \<Longrightarrow> ws = []"
  by (cases d rule: load_package_from_file.cases) auto

lemma load_packages_loop_split:
  "load_packages_loop (s, w) files =
     (fst (load_packages_loop (s, []) (filter valid_descriptor files)),
      w @ concat (map warnings_of (filter bad_descriptor files)))"
proof (induction files arbitrary: s w)
  case Nil
  then show ?case by simp
next
  case (Cons fd files)
  obtain f d where fd: "fd = (f, d)" by (cases fd)
  show ?case
  proof (cases "endswith f PKG_EXT")
    case False
    with Cons.IH[of s w] fd show ?thesis
      by (simp add: valid_descriptor_def bad_descriptor_def)
  next
    case True
    obtain r ws where l: "load_package_from_file d = (r, ws)"
      by (cases "load_package_from_file d")
    show ?thesis
    proof (cases r)
      case None
      with True l fd
        Cons.IH[of s "w @ ws @ [''Could not found a valid package in '' @ f]"]
      show ?thesis
        by (simp add: valid_descriptor_def bad_descriptor_def warnings_of_def)
    next
      case (Some p)
      with l have ws: "ws = []" by (auto dest: load_valid_no_warning)
      obtain s' a where n: "new_object s p = (s', a)" by (cases "new_object s p")
      from Cons.IH[of "add_package s' a" w] Cons.IH[of "add_package s' a" "[]"]
        True l Some ws n fd
      show ?thesis
        by (simp add: valid_descriptor_def bad_descriptor_def)
    qed
  qed
qed

lemma add_package_keys:
  "fst ` set (s_packages (add_package s a)) = insert (obj_name (heap s a)) (fst ` set (s_packages s))"
  by (simp add: add_package_def dom_update)

lemma load_packages_loop_keys:
  "fst ` set (s_packages s) \<subseteq> fst ` set (s_packages (fst (load_packages_loop (s, w) files)))
   \<and> (\<forall>f d p. (f, d) \<in> set files \<and> endswith f PKG_EXT \<and> load_package_from_file d = (Some p, [])
        \<longrightarrow> obj_name p \<in> fst ` set (s_packages (fst (load_packages_loop (s, w) files))))"
proof (induction files arbitrary: s w)
  case Nil
  then show ?case by simp
next
  case (Cons fd files)
  obtain f d where fd: "fd = (f, d)" by (cases fd)
  show ?case
  proof (cases "endswith f PKG_EXT")
    case False
    with Cons.IH[of s w] fd show ?thesis by auto
  next
    case True
    obtain r ws where l: "load_package_from_file d = (r, ws)"
      by (cases "load_package_from_file d")
    show ?thesis
    proof (cases r)
      case None
      with True l fd
        Cons.IH[of s "w @ ws @ [''Could not found a valid package in '' @ f]"]
      show ?thesis by auto
    next
      case (Some p)
      define s' where "s' = s\<lparr>heap := (heap s)(fresh s := p), fresh := Suc (fresh s)\<rparr>"
      have n: "new_object s p = (s', fresh s)" by (simp add: new_object_def s'_def)
      have k: "fst ` set (s_packages (add_package s' (fresh s)))
          = insert (obj_name p) (fst ` set (s_packages s))"
        by (simp add: add_package_keys) (simp add: s'_def)
      from True l Some n fd have step: "load_packages_loop (s, w) (fd # files)
          = load_packages_loop (add_package s' (fresh s), w @ ws) files"
        by simp
      let ?res = "fst (load_packages_loop (add_package s' (fresh s), w @ ws) files)"
      from Cons.IH[of "add_package s' (fresh s)" "w @ ws"] k
      have sub: "insert (obj_name p) (fst ` set (s_packages s)) \<subseteq> fst ` set (s_packages ?res)"
        and rest: "\<forall>f d p. (f, d) \<in> set files \<and> endswith f PKG_EXT \<and>
          load_package_from_file d = (Some p, []) \<longrightarrow> obj_name p \<in> fst ` set (s_packages ?res)"
        by simp_all
      have "obj_name q \<in> fst ` set (s_packages ?res)"
        if "(g, x) \<in> set (fd # files)" "endswith g PKG_EXT" "load_package_from_file x = (Some q, [])"
        for g x q
      proof (cases "(g, x) = fd")
        case True
        with fd l Some that(3) have "q = p" by simp
        with sub show ?thesis by blast
      next
        case False
        with that rest show ?thesis by auto
      qed
      with sub show ?thesis unfolding step by blast
    qed
  qed
qed

text \<open>
  C6. With \<open>load\<close> set, \<open>__init__\<close> raises FatalError exactly when the packages directory is
  missing. For a directory it always returns a store: the store is the one that loading
  only the valid descriptor files gives (and that load prints no warning); every file
  with the extension that raises, or defines neither class, is skipped with the warning
  of the \<open>except\<close> clause and the warning "Could not found a valid package in" with its
  name; and every valid descriptor's package name is a key of the store.
\<close>

theorem C6_load_skips_bad_descriptors:
  "((\<exists>m. init_store d True = Inl (FatalError m)) \<longleftrightarrow> d = Missing)
   \<and> (d = Directory files \<longrightarrow>
        (\<exists>s w. init_store d True = Inr (s, w)
           \<and> init_store (Directory (filter valid_descriptor files)) True = Inr (s, [])
           \<and> w = concat (map warnings_of (filter bad_descriptor files))
           \<and> (\<forall>fd. fd \<in> set files \<and> bad_descriptor fd \<longrightarrow>
                (''Could not found a valid package in '' @ fst fd) \<in> set w)
           \<and> (\<forall>f x p. (f, x) \<in> set files \<and> endswith f PKG_EXT \<and>
                load_package_from_file x = (Some p, []) \<longrightarrow>
                obj_name p \<in> fst ` set (s_packages s))))"
proof (intro conjI impI)
  show "(\<exists>m. init_store d True = Inl (FatalError m)) \<longleftrightarrow> d = Missing"
    by (cases d) (auto simp: init_store_def)
next
  assume d: "d = Directory files"
  define s0 where "s0 = empty_store\<lparr>s_packages := []\<rparr>"
  define s where "s = fst (load_packages_loop (s0, []) (filter valid_descriptor files))"
  define w where "w = concat (map warnings_of (filter bad_descriptor files))"
  have a: "load_packages_loop (s0, []) files = (s, w)"
    using load_packages_loop_split[of s0 "[]" files] by (simp add: s_def w_def)
  have "filter bad_descriptor (filter valid_descriptor files) = []"
    by (auto simp: filter_empty_conv valid_descriptor_def bad_descriptor_def)
  moreover have "snd (load_packages_loop (s0, []) (filter valid_descriptor files))
      = [] @ concat (map warnings_of (filter bad_descriptor (filter valid_descriptor files)))"
    by (subst load_packages_loop_split) (rule snd_conv)
  ultimately have "snd (load_packages_loop (s0, []) (filter valid_descriptor files)) = []"
    by (simp only: append_Nil list.map concat.simps)
  then have b: "load_packages_loop (s0, []) (filter valid_descriptor files) = (s, [])"
    by (simp add: s_def prod_eq_iff)
  have c: "\<forall>fd. fd \<in> set files \<and> bad_descriptor fd \<longrightarrow>
      (''Could not found a valid package in '' @ fst fd) \<in> set w"
    by (auto simp: w_def warnings_of_def)
  from load_packages_loop_keys[of s0 "[]" files] a
  have e: "\<forall>f x p. (f, x) \<in> set files \<and> endswith f PKG_EXT \<and>
      load_package_from_file x = (Some p, []) \<longrightarrow> obj_name p \<in> fst ` set (s_packages s)"
    by simp
  have i1: "init_store d True = Inr (s, w)"
    unfolding d init_store_def load_packages_def using a by (simp add: s0_def)
  have i2: "init_store (Directory (filter valid_descriptor files)) True = Inr (s, [])"
    unfolding init_store_def load_packages_def using b by (simp add: s0_def)
  have i3: "w = concat (map warnings_of (filter bad_descriptor files))"
    by (simp add: w_def)
  from i1 i2 i3 c e
  show "\<exists>s w. init_store d True = Inr (s, w)
           \<and> init_store (Directory (filter valid_descriptor files)) True = Inr (s, [])
           \<and> w = concat (map warnings_of (filter bad_descriptor files))
           \<and> (\<forall>fd. fd \<in> set files \<and> bad_descriptor fd \<longrightarrow>
                (''Could not found a valid package in '' @ fst fd) \<in> set w)
           \<and> (\<forall>f x p. (f, x) \<in> set files \<and> endswith f PKG_EXT \<and>
                load_package_from_file x = (Some p, []) \<longrightarrow>
                obj_name p \<in> fst ` set (s_packages s))"
    by blast
qed

theorem C6_witness:
  "(\<exists>s. init_store example_dir True
        = Inr (s, [''Error loading package invalid syntax'',
                   ''Could not found a valid package in broken.package'',
                   ''Error loading package Package or MetaPackage class found'',
                   ''Could not found a valid package in empty.package''])
      \<and> ''base'' \<in> fst ` set (s_packages s))
   \<and> init_store Missing True = Inl (FatalError ''Packages dir not found'')"
proof -
  obtain files where f: "example_dir = Directory files"
    and files: "files = [(''base.package'', Defines (Some (Gives (Package (mkinfo ''base'') [] [''lib/base.so'']))) None),
      (''broken.package'', ExecFails ''invalid syntax''),
      (''README'', ExecFails ''invalid syntax''),
      (''empty.package'', Defines None None),
      (''sdk.package'', Defines None
         (Some (Gives (MetaPackage (mkinfo ''sdk'') [(''base'', True, True)] []))))]"
    by (simp add: example_dir_def)
  have w: "concat (map warnings_of (filter bad_descriptor files))
      = [''Error loading package invalid syntax'',
         ''Could not found a valid package in broken.package'',
         ''Error loading package Package or MetaPackage class found'',
         ''Could not found a valid package in empty.package'']"
    unfolding files by code_simp
  have h: "(''base.package'', Defines (Some (Gives (Package (mkinfo ''base'') [] [''lib/base.so'']))) None) \<in> set files
      \<and> endswith ''base.package'' PKG_EXT
      \<and> load_package_from_file (Defines (Some (Gives (Package (mkinfo ''base'') [] [''lib/base.so'']))) None)
          = (Some (Package (mkinfo ''base'') [] [''lib/base.so'']), [])"
    unfolding files by (simp add: endswith_def PKG_EXT_def)
  have n: "obj_name (Package (mkinfo ''base'') [] [''lib/base.so'']) = ''base''"
    by (simp add: obj_name_def mkinfo_def)
  from C6_load_skips_bad_descriptors[of example_dir files] f
  obtain s w' where 1: "init_store example_dir True = Inr (s, w')"
    and 2: "w' = concat (map warnings_of (filter bad_descriptor files))"
    and 3: "\<forall>f x p. (f, x) \<in> set files \<and> endswith f PKG_EXT \<and>
                load_package_from_file x = (Some p, []) \<longrightarrow>
                obj_name p \<in> fst ` set (s_packages s)"
    by blast
  from 3[rule_format, OF h] n have "''base'' \<in> fst ` set (s_packages s)" by simp
  moreover from C6_load_skips_bad_descriptors[of Missing files]
  obtain m where "init_store Missing True = Inl (FatalError m)" by blast
  then have "init_store Missing True = Inl (FatalError ''Packages dir not found'')"
    by (simp add: init_store_def)
  ultimately show ?thesis using 1 2 w by auto
qed







































end
